theory Spec2Isabelle
  imports Complex_Main
begin

section \<open>Data model of dictionary/models/author.py\<close>

text \<open>
  A Python \<open>str\<close> is a sequence of Unicode code points; the handle rules are about
  characters beyond ASCII as well, so a string is a list of code points.
  A \<open>datetime\<close> is a number of microseconds (its resolution) since the epoch.
  A \<open>Decimal\<close> is an exact rational.
\<close>

type_synonym pystr = "nat list"
type_synonym datetime = int
type_synonym pk = nat

definition str_of :: "string \<Rightarrow> pystr" where
  "str_of cs = map of_char cs"

definition timedelta_hours :: "int \<Rightarrow> int" where
  "timedelta_hours h = h * 3600000000"

datatype gender = MAN | WOMAN | OTHER | UNKNOWN
datatype application_status = PENDING | ON_HOLD | APPROVED
datatype message_preference = DISABLED | ALL_USERS | AUTHOR_ONLY | FOLLOWING_ONLY

text \<open>The fields that class Author declares (those of AbstractUser are left out).\<close>

record author =
  username :: pystr
  email :: pystr
  birth_date :: "int option"
  gender :: gender
  is_novice :: bool
  is_active :: bool
  application_status :: application_status
  application_date :: "datetime option"
  last_activity :: "datetime option"
  banned_until :: "datetime option"
  entries_per_page :: int
  topics_per_page :: int
  message_preference :: message_preference
  pinned_entry :: "pk option"

record memento =
  body :: "pystr option"
  holder :: pk
  patient :: pk

record userverification =
  uv_author :: pk
  verification_token :: pystr
  new_email :: "pystr option"
  expiration_date :: datetime

text \<open>
  Entry and Category are imported from sibling modules. Of an Entry the file reads its
  author, its vote rate, its creation date and whether the manager
  \<open>objects_published\<close> lists it; of a Category only its identity.
\<close>

record entry =
  entry_author :: pk
  vote_rate :: rat
  date_created :: datetime
  is_published :: bool

text \<open>
  The database: one table per model, a row stored under its primary key in insertion
  order, and one list of pairs per many-to-many field.
\<close>

record db =
  authors :: "(pk \<times> author) list"
  mementos :: "(pk \<times> memento) list"
  userverifications :: "(pk \<times> userverification) list"
  entries :: "(pk \<times> entry) list"
  categories :: "pk list"
  following :: "(pk \<times> pk) list"
  blocked :: "(pk \<times> pk) list"
  favorite_entries :: "(pk \<times> pk) list"
  upvoted_entries :: "(pk \<times> pk) list"
  downvoted_entries :: "(pk \<times> pk) list"
  following_categories :: "(pk \<times> pk) list"

datatype vcode = V_invalid | V_max_length | V_blank | V_unique

datatype error =
    ValidationError "(string \<times> vcode) list"
  | IntegrityError
  | DoesNotExist

subsection \<open>Model.save of the framework\<close>

text \<open>
  \<open>Model.save\<close> updates the row of the instance's primary key when the instance has
  one and the row exists, and inserts otherwise; an insert without a key gets a key that
  no row of the table uses.
\<close>

definition has_pk :: "(pk \<times> 'a) list \<Rightarrow> pk \<Rightarrow> bool" where
  "has_pk tbl p = (p \<in> fst ` set tbl)"

definition new_pk :: "(pk \<times> 'a) list \<Rightarrow> pk" where
  "new_pk tbl = Suc (fold max (map fst tbl) 0)"

definition table_update :: "(pk \<times> 'a) list \<Rightarrow> pk \<Rightarrow> 'a \<Rightarrow> (pk \<times> 'a) list" where
  "table_update tbl p v = map (\<lambda>(k, x). if k = p then (k, v) else (k, x)) tbl"

definition save_table :: "(pk \<times> 'a) list \<Rightarrow> pk option \<Rightarrow> 'a \<Rightarrow> (pk \<times> 'a) list \<times> pk" where
  "save_table tbl key v =
     (case key of
        None \<Rightarrow> (tbl @ [(new_pk tbl, v)], new_pk tbl)
      | Some p \<Rightarrow> if has_pk tbl p then (table_update tbl p v, p) else (tbl @ [(p, v)], p))"

section \<open>UserVerification\<close>

text \<open>
  \<^verbatim>\<open>
  def save(self, *args, **kwargs):
      UserVerification.objects.filter(author=self.author).delete()
      super().save(*args, **kwargs)
  \<close>
  Reading \<open>self.author\<close> fetches the account and raises DoesNotExist when there is
  none, before anything is deleted. The delete cascades no further: no model refers to
  UserVerification.
\<close>

definition UserVerification_save ::
  "db \<Rightarrow> pk option \<Rightarrow> userverification \<Rightarrow> db \<times> (error + pk)" where
  "UserVerification_save s key v =
     (if \<not> has_pk (authors s) (uv_author v) then (s, Inl DoesNotExist)
      else
        let kept = filter (\<lambda>(k, r). uv_author r \<noteq> uv_author v) (userverifications s);
            (tbl, p) = save_table kept key v
        in (s\<lparr>userverifications := tbl\<rparr>, Inr p))"

text \<open>The reverse accessor \<open>author.userverification_set\<close>.\<close>

definition userverification_set :: "db \<Rightarrow> pk \<Rightarrow> (pk \<times> userverification) list" where
  "userverification_set s a = filter (\<lambda>(k, r). uv_author r = a) (userverifications s)"

text \<open>
  \<^verbatim>\<open>
  @property
  def email_confirmed(self):
      if self.userverification_set.filter(
              expiration_date__gte=timezone.now() - datetime.timedelta(hours=24)).exists():
          return False
      return True
  \<close>
\<close>

definition email_confirmed :: "db \<Rightarrow> pk \<Rightarrow> datetime \<Rightarrow> bool" where
  "email_confirmed s a now =
     (if filter (\<lambda>(k, r). now - timedelta_hours 24 \<le> expiration_date r)
           (userverification_set s a) \<noteq> []
      then False else True)"

text \<open>
  The specification's freshness test: a token is fresh iff the time elapsed since its
  reference point is at most 24 hours.
\<close>

definition fresh :: "datetime \<Rightarrow> userverification \<Rightarrow> bool" where
  "fresh now r = (now - expiration_date r \<le> 24 * 3600 * 1000000)"

text \<open>At most one verification-token row per account.\<close>

definition one_token_per_account :: "db \<Rightarrow> bool" where
  "one_token_per_account s = distinct (map (\<lambda>(k, r). uv_author r) (userverifications s))"

text \<open>A sequence of token saves; a save that raises leaves the database as it was.\<close>

fun issue_tokens :: "db \<Rightarrow> (pk option \<times> userverification) list \<Rightarrow> db" where
  "issue_tokens s [] = s"
| "issue_tokens s ((key, v) # ops) = issue_tokens (fst (UserVerification_save s key v)) ops"

section \<open>The handle: AuthorNickValidator and the username field\<close>

text \<open>
  \<^verbatim>\<open>
  class AuthorNickValidator(UnicodeUsernameValidator):
      regex = r'^[a-z\ ]+$'
  \<close>
  The validator raises unless \<open>re.search(regex, value)\<close> finds a match, with no flags
  (UnicodeUsernameValidator sets \<open>flags = 0\<close>). Without MULTILINE, \<open>^\<close> matches at
  the start of the string only, and \<open>$\<close> matches at the end of the string and just
  before a newline that ends the string.
\<close>

definition in_class :: "nat \<Rightarrow> bool" where
  \<comment> \<open>the class \<open>[a-z\ ]\<close>: code points 97..122 and 32\<close>
  "in_class c = ((97 \<le> c \<and> c \<le> 122) \<or> c = 32)"

definition at_dollar :: "pystr \<Rightarrow> bool" where
  \<comment> \<open>\<open>$\<close> at a position, given what is left of the string there\<close>
  "at_dollar rest = (rest = [] \<or> rest = [10])"

fun match_rest :: "pystr \<Rightarrow> bool" where
  \<comment> \<open>\<open>[a-z\ ]*$\<close> from a position: one more character of the class, or stop here\<close>
  "match_rest [] = at_dollar []"
| "match_rest (c # cs) = ((in_class c \<and> match_rest cs) \<or> at_dollar (c # cs))"

definition nick_regex_search :: "pystr \<Rightarrow> bool" where
  "nick_regex_search s = (case s of [] \<Rightarrow> False | c # cs \<Rightarrow> in_class c \<and> match_rest cs)"

definition AuthorNickValidator :: "pystr \<Rightarrow> vcode list" where
  "AuthorNickValidator v = (if nick_regex_search v then [] else [V_invalid])"

text \<open>\<open>CharField(max_length=n)\<close> appends \<open>MaxLengthValidator(n)\<close> to the field's validators.\<close>

definition MaxLengthValidator :: "nat \<Rightarrow> pystr \<Rightarrow> vcode list" where
  "MaxLengthValidator limit v = (if limit < length v then [V_max_length] else [])"

text \<open>
  \<open>Field.clean\<close> of the username field (\<open>max_length=50, validators=[nick_validator]\<close>,
  not blank): an empty value is refused as blank; otherwise every validator runs and their
  errors are collected. The value is returned as it is.
\<close>

definition username_clean :: "pystr \<Rightarrow> vcode list + pystr" where
  "username_clean v =
     (if v = [] then Inl [V_blank]
      else let errors = AuthorNickValidator v @ MaxLengthValidator 50 v
           in if errors \<noteq> [] then Inl errors else Inr v)"

text \<open>
  The email field is an \<open>EmailField(unique=True)\<close>: the framework's
  \<open>validate_email\<close>, taken as the parameter \<open>ve\<close>, and its default maximum length 254.
\<close>

definition email_clean :: "(pystr \<Rightarrow> bool) \<Rightarrow> pystr \<Rightarrow> vcode list + pystr" where
  "email_clean ve v =
     (if v = [] then Inl [V_blank]
      else let errors = (if ve v then [] else [V_invalid]) @ MaxLengthValidator 254 v
           in if errors \<noteq> [] then Inl errors else Inr v)"

definition field_errors :: "string \<Rightarrow> vcode list + pystr \<Rightarrow> (string \<times> vcode) list" where
  "field_errors f r = (case r of Inl errs \<Rightarrow> map (Pair f) errs | Inr _ \<Rightarrow> [])"

text \<open>
  \<open>full_clean\<close> of a new Author instance, on the fields this file declares:
  \<open>clean_fields\<close>, then \<open>Model.clean\<close>, then \<open>validate_unique\<close> for the unique
  fields that passed \<open>clean_fields\<close> (\<open>username\<close>, the one-to-one \<open>pinned_entry\<close>
  unless null, \<open>email\<close>). \<open>Model.clean\<close> is the framework's \<open>AbstractUser.clean\<close>,
  which raises nothing and rewrites the email (the \<open>USERNAME_FIELD\<close> here): Unicode
  normalisation, then the domain part in lower case. Its effect on the email is the
  parameter \<open>ne\<close>, and the unique check on the email reads the rewritten value. The
  result is the error list of the ValidationError; no error when it is empty.
\<close>

definition Author_full_clean ::
  "(pystr \<Rightarrow> bool) \<Rightarrow> (pystr \<Rightarrow> pystr) \<Rightarrow> db \<Rightarrow> author \<Rightarrow> (string \<times> vcode) list" where
  "Author_full_clean ve ne s a =
     (let eu = field_errors ''username'' (username_clean (username a));
          ee = field_errors ''email'' (email_clean ve (email a));
          cleaned_email = ne (email a)
      in eu @ ee
         @ (if eu = [] \<and> (\<exists>(k, r) \<in> set (authors s). username r = username a)
            then [(''username'', V_unique)] else [])
         @ (if pinned_entry a \<noteq> None \<and> (\<exists>(k, r) \<in> set (authors s). pinned_entry r = pinned_entry a)
            then [(''pinned_entry'', V_unique)] else [])
         @ (if ee = [] \<and> (\<exists>(k, r) \<in> set (authors s). email r = cleaned_email)
            then [(''email'', V_unique)] else []))"

section \<open>Author.save\<close>

text \<open>
  The constraints the table carries: \<open>unique=True\<close> on username and on email, the
  one-to-one \<open>pinned_entry\<close> (unique among the rows where it is not null), and its
  foreign key. A write that violates one raises IntegrityError and changes nothing.
  \<open>save\<close> runs no validator; whether the column refuses a handle longer than
  \<open>max_length\<close> depends on the database and is left out.
\<close>

definition unique_violation :: "(pk \<times> author) list \<Rightarrow> pk option \<Rightarrow> author \<Rightarrow> bool" where
  "unique_violation tbl key a =
     (\<exists>(k, r) \<in> set tbl. Some k \<noteq> key \<and>
        (username r = username a \<or> email r = email a \<or>
         (pinned_entry a \<noteq> None \<and> pinned_entry r = pinned_entry a)))"

definition fk_violation :: "db \<Rightarrow> author \<Rightarrow> bool" where
  "fk_violation s a = (case pinned_entry a of None \<Rightarrow> False | Some e \<Rightarrow> \<not> has_pk (entries s) e)"

text \<open>\<open>manager.add(*objs)\<close> of a many-to-many field links the objects not linked yet.\<close>

definition m2m_add :: "(pk \<times> pk) list \<Rightarrow> pk \<Rightarrow> pk list \<Rightarrow> (pk \<times> pk) list" where
  "m2m_add rel a cs = rel @ map (Pair a) (filter (\<lambda>c. (a, c) \<notin> set rel) (remdups cs))"

text \<open>
  \<^verbatim>\<open>
  def save(self, *args, **kwargs):
      created = self.pk is None
      super().save(*args, **kwargs)
      if created:
          # newly created user
          categories_list = list(Category.objects.all())
          self.following_categories.add(*categories_list)
  \<close>
\<close>

definition Author_save :: "db \<Rightarrow> pk option \<Rightarrow> author \<Rightarrow> db \<times> (error + pk)" where
  "Author_save s key a =
     (let created = (key = None)
      in if unique_violation (authors s) key a \<or> fk_violation s a then (s, Inl IntegrityError)
         else
           let (tbl, p) = save_table (authors s) key a;
               s1 = s\<lparr>authors := tbl\<rparr>
           in if created
              then (s1\<lparr>following_categories := m2m_add (following_categories s1) p (categories s1)\<rparr>, Inr p)
              else (s1, Inr p))"

text \<open>\<open>Author(username=..., email=...)\<close>: the other fields at their declared defaults.\<close>

definition new_author :: "pystr \<Rightarrow> pystr \<Rightarrow> author" where
  "new_author u e =
     \<lparr>username = u, email = e, birth_date = None, gender = UNKNOWN, is_novice = True,
      is_active = False, application_status = ON_HOLD, application_date = None,
      last_activity = None, banned_until = None, entries_per_page = 10, topics_per_page = 50,
      message_preference = ALL_USERS, pinned_entry = None\<rparr>"

text \<open>The following set of an account, as the many-to-many field holds it.\<close>

definition following_categories_of :: "db \<Rightarrow> pk \<Rightarrow> pk set" where
  "following_categories_of s a = {c. (a, c) \<in> set (following_categories s)}"

text \<open>No two accounts pin the same entry.\<close>

definition pins_unique :: "db \<Rightarrow> bool" where
  "pins_unique s =
     (\<forall>(k, r) \<in> set (authors s). \<forall>(k', r') \<in> set (authors s).
        pinned_entry r \<noteq> None \<and> pinned_entry r = pinned_entry r' \<longrightarrow> k = k')"

text \<open>Every row of the \<open>following_categories\<close> relation refers to an account that exists.\<close>

definition following_categories_fk :: "db \<Rightarrow> bool" where
  "following_categories_fk s = (\<forall>(x, c) \<in> set (following_categories s). has_pk (authors s) x)"

section \<open>Derived queries on entries\<close>

definition objects_published :: "db \<Rightarrow> (pk \<times> entry) list" where
  "objects_published s = filter (\<lambda>(k, e). is_published e) (entries s)"

text \<open>
  \<^verbatim>\<open>
  @property
  def entry_nice(self):
      entry = Entry.objects_published.filter(author=self).order_by("-vote_rate").first()
      if entry and entry.vote_rate > Decimal("1"):
          return entry
      return None
  \<close>
  \<open>order_by("-vote_rate")\<close> sorts by descending vote rate; rows of equal rate stay in
  table order here (the database may return any of them first).
\<close>

definition published_of :: "db \<Rightarrow> pk \<Rightarrow> (pk \<times> entry) list" where
  "published_of s a = filter (\<lambda>(k, e). entry_author e = a) (objects_published s)"

definition entry_nice :: "db \<Rightarrow> pk \<Rightarrow> (pk \<times> entry) option" where
  "entry_nice s a =
     (case sort_key (\<lambda>(k, e). - vote_rate e) (published_of s a) of
        [] \<Rightarrow> None
      | x # _ \<Rightarrow> if 1 < vote_rate (snd x) then Some x else None)"

section \<open>Memento\<close>

text \<open>
  \<^verbatim>\<open>
  class Meta:
      constraints = [models.UniqueConstraint(fields=['holder', 'patient'], name='unique_memento')]
  \<close>
  Memento inherits \<open>Model.save\<close>; the table carries the pair constraint and the two
  foreign keys.
\<close>

definition unique_memento :: "(pk \<times> memento) list \<Rightarrow> pk option \<Rightarrow> memento \<Rightarrow> bool" where
  "unique_memento tbl key m =
     (\<not> (\<exists>(k, r) \<in> set tbl. Some k \<noteq> key \<and> holder r = holder m \<and> patient r = patient m))"

definition Memento_save :: "db \<Rightarrow> pk option \<Rightarrow> memento \<Rightarrow> db \<times> (error + pk)" where
  "Memento_save s key m =
     (if \<not> unique_memento (mementos s) key m
         \<or> \<not> has_pk (authors s) (holder m) \<or> \<not> has_pk (authors s) (patient m)
      then (s, Inl IntegrityError)
      else let (tbl, p) = save_table (mementos s) key m in (s\<lparr>mementos := tbl\<rparr>, Inr p))"

definition mementos_of :: "db \<Rightarrow> pk \<Rightarrow> pk \<Rightarrow> (pk \<times> memento) list" where
  "mementos_of s h p = filter (\<lambda>(k, r). holder r = h \<and> patient r = p) (mementos s)"

text \<open>
  Modelled from the spec: the write path of a Memento (a view of the repository) is not
  among the sources. The specification's upsert contract: writing a Memento for a pair
  creates the single permitted row or overwrites the existing one's body, by checking
  for the row first.
\<close>

definition upsert_memento :: "db \<Rightarrow> pk \<Rightarrow> pk \<Rightarrow> pystr option \<Rightarrow> db \<times> (error + pk)" where
  "upsert_memento s h p b =
     (case mementos_of s h p of
        [] \<Rightarrow> Memento_save s None \<lparr>body = b, holder = h, patient = p\<rparr>
      | (k, r) # _ \<Rightarrow> Memento_save s (Some k) (r\<lparr>body := b\<rparr>))"

text \<open>At most one Memento row per (holder, patient) pair.\<close>

definition memento_pairs_unique :: "db \<Rightarrow> bool" where
  "memento_pairs_unique s = distinct (map (\<lambda>(k, r). (holder r, patient r)) (mementos s))"

section \<open>Deletion\<close>

text \<open>
  Deleting entries: \<open>pinned_entry\<close> is declared \<open>on_delete=models.SET_NULL\<close>, and the
  rows of the many-to-many fields that link a deleted entry go with it.
\<close>

definition delete_entries :: "db \<Rightarrow> pk list \<Rightarrow> db" where
  "delete_entries s es =
     s\<lparr>entries := filter (\<lambda>(k, e). k \<notin> set es) (entries s),
       authors := map (\<lambda>(k, r). (k, if pinned_entry r \<in> Some ` set es
                                      then r\<lparr>pinned_entry := None\<rparr> else r)) (authors s),
       favorite_entries := filter (\<lambda>(a, e). e \<notin> set es) (favorite_entries s),
       upvoted_entries := filter (\<lambda>(a, e). e \<notin> set es) (upvoted_entries s),
       downvoted_entries := filter (\<lambda>(a, e). e \<notin> set es) (downvoted_entries s)\<rparr>"

definition Entry_delete :: "db \<Rightarrow> pk \<Rightarrow> db" where
  "Entry_delete s e = delete_entries s [e]"

text \<open>
  Deleting an account: Memento's \<open>holder\<close> and \<open>patient\<close> and UserVerification's
  \<open>author\<close> are declared \<open>on_delete=models.CASCADE\<close>; the rows of the account's
  many-to-many fields go with it. What happens to the account's entries is declared in
  models/entry.py: \<open>cascade_entries\<close> says whether they are deleted with the account.
\<close>

definition Author_delete :: "bool \<Rightarrow> db \<Rightarrow> pk \<Rightarrow> db" where
  "Author_delete cascade_entries s b =
     (let s1 = (if cascade_entries
                then delete_entries s (map fst (filter (\<lambda>(k, e). entry_author e = b) (entries s)))
                else s)
      in s1\<lparr>authors := filter (\<lambda>(k, r). k \<noteq> b) (authors s1),
             mementos := filter (\<lambda>(k, r). holder r \<noteq> b \<and> patient r \<noteq> b) (mementos s1),
             userverifications := filter (\<lambda>(k, r). uv_author r \<noteq> b) (userverifications s1),
             following := filter (\<lambda>(x, y). x \<noteq> b \<and> y \<noteq> b) (following s1),
             blocked := filter (\<lambda>(x, y). x \<noteq> b \<and> y \<noteq> b) (blocked s1),
             favorite_entries := filter (\<lambda>(x, e). x \<noteq> b) (favorite_entries s1),
             upvoted_entries := filter (\<lambda>(x, e). x \<noteq> b) (upvoted_entries s1),
             downvoted_entries := filter (\<lambda>(x, e). x \<noteq> b) (downvoted_entries s1),
             following_categories := filter (\<lambda>(x, c). x \<noteq> b) (following_categories s1)\<rparr>)"

text \<open>The empty database.\<close>

definition empty_db :: db where
  "empty_db = \<lparr>authors = [], mementos = [], userverifications = [], entries = [],
     categories = [], following = [], blocked = [], favorite_entries = [],
     upvoted_entries = [], downvoted_entries = [], following_categories = []\<rparr>"

section \<open>Concrete databases for the worked examples\<close>

definition db1 :: db where
  "db1 = empty_db\<lparr>authors := [(1, new_author (str_of ''ali'') (str_of ''ali@example.com'')),
                             (2, new_author (str_of ''veli'') (str_of ''veli@example.com''))]\<rparr>"

definition tok :: "pk \<Rightarrow> string \<Rightarrow> datetime \<Rightarrow> userverification" where
  "tok a t e = \<lparr>uv_author = a, verification_token = str_of t, new_email = None, expiration_date = e\<rparr>"

definition ent :: "pk \<Rightarrow> rat \<Rightarrow> bool \<Rightarrow> entry" where
  "ent a r p = \<lparr>entry_author = a, vote_rate = r, date_created = 0, is_published = p\<rparr>"

definition db2 :: db where
  "db2 = db1\<lparr>entries := [(1, ent 1 (1/2) True), (2, ent 1 (3/2) True), (3, ent 1 9 False),
                           (4, ent 2 1 True), (5, ent 2 (1/4) True)]\<rparr>"

text \<open>A handle of 51 letters \<open>a\<close>.\<close>

definition long_nick :: pystr where
  "long_nick = replicate 51 97"

definition ali :: author where
  "ali = new_author (str_of ''ali'') (str_of ''ali@example.com'')"

definition veli :: author where
  "veli = new_author (str_of ''veli'') (str_of ''veli@example.com'')"

definition db3 :: db where
  "db3 = db2\<lparr>authors := [(1, ali\<lparr>pinned_entry := Some 2\<rparr>), (2, veli)]\<rparr>"

definition can :: author where
  "can = new_author (str_of ''can'') (str_of ''can@example.com'')"

definition db4 :: db where
  "db4 = empty_db\<lparr>authors := [(1, ali), (2, veli)], categories := [10, 20],
                       following_categories := [(1, 10)]\<rparr>"

definition db4_can :: db where
  "db4_can = db4\<lparr>authors := [(1, ali), (2, veli), (3, can)],
                     following_categories := [(1, 10), (3, 10), (3, 20)]\<rparr>"

definition memo :: "string \<Rightarrow> pk \<Rightarrow> pk \<Rightarrow> memento" where
  "memo b h p = \<lparr>body = Some (str_of b), holder = h, patient = p\<rparr>"

definition db5 :: db where
  "db5 = db3\<lparr>mementos := [(1, memo ''x'' 1 2), (2, memo ''y'' 2 1), (3, memo ''z'' 1 1)],
               userverifications := [(1, tok 2 ''t'' 0), (2, tok 1 ''u'' 0)]\<rparr>"

definition db1x :: db where
  "db1x = db1\<lparr>mementos := [(1, memo ''x'' 1 2)]\<rparr>"

definition db1y :: db where
  "db1y = db1\<lparr>mementos := [(1, memo ''y'' 1 2)]\<rparr>"

definition db4_key :: db where
  "db4_key = db4\<lparr>authors := [(1, ali), (2, veli), (7, can)]\<rparr>"

text \<open>A database that holds the handle \<open>Ali\<close>, stored by a save without validation.\<close>

definition db_Ali :: db where
  "db_Ali = empty_db\<lparr>authors := [(1, new_author (str_of ''Ali'') (str_of ''ali@example.com''))]\<rparr>"

section \<open>Verification\<close>

subsection \<open>Tables\<close>

lemma map_fst_table_update: "map fst (table_update tbl p v) = map fst tbl"
  by (induction tbl) (auto simp: table_update_def)

lemma has_pk_table_update: "has_pk (table_update tbl p v) q = has_pk tbl q"
  unfolding has_pk_def using map_fst_table_update[of tbl p v]
  by (metis set_map)

lemma new_pk_fresh: "\<not> has_pk tbl (new_pk tbl)"
proof
  assume "has_pk tbl (new_pk tbl)"
  then have "new_pk tbl \<in> set (0 # map fst tbl)" by (simp add: has_pk_def)
  then have "new_pk tbl \<le> Max (set (0 # map fst tbl))" by (intro Max_ge) auto
  moreover have "fold max (map fst tbl) 0 = Max (set (0 # map fst tbl))"
    by (simp only: Max.set_eq_fold)
  ultimately show False by (simp add: new_pk_def)
qed

lemma filter_table_update_other:
  assumes "\<forall>(k, r) \<in> set tbl. \<not> P r" "P v" "has_pk tbl p" "distinct (map fst tbl)"
  shows "filter (\<lambda>(k, r). P r) (table_update tbl p v) = [(p, v)]"
  using assms
proof (induction tbl)
  case Nil then show ?case by (simp add: has_pk_def)
next
  case (Cons x tbl)
  obtain k r where x: "x = (k, r)" by (cases x)
  show ?case
  proof (cases "k = p")
    case True
    with Cons.prems x have "\<not> has_pk tbl p" by (auto simp: has_pk_def)
    then have "table_update tbl p v = tbl"
      by (induction tbl) (auto simp: table_update_def has_pk_def)
    moreover have "filter (\<lambda>(k, r). P r) tbl = []"
      using Cons.prems(1) by (auto simp: filter_empty_conv)
    ultimately show ?thesis using True x Cons.prems(2) by (simp add: table_update_def)
  next
    case False
    with Cons x show ?thesis by (auto simp: table_update_def has_pk_def)
  qed
qed

lemma distinct_save_table:
  "distinct (map fst tbl) \<Longrightarrow> save_table tbl key v = (tbl', p) \<Longrightarrow> distinct (map fst tbl')"
  using new_pk_fresh[of tbl]
  by (auto simp: save_table_def has_pk_def map_fst_table_update split: option.splits if_splits)

lemma filter_save_table_other:
  assumes "\<forall>(k, r) \<in> set tbl. \<not> P r" "P v" "distinct (map fst tbl)"
    and "save_table tbl key v = (tbl', p)"
  shows "filter (\<lambda>(k, r). P r) tbl' = [(p, v)]"
proof -
  have none: "filter (\<lambda>(k, r). P r) tbl = []"
    using assms(1) by (auto simp: filter_empty_conv)
  show ?thesis
  proof (cases "\<exists>q. key = Some q \<and> has_pk tbl q")
    case True
    then obtain q where q: "key = Some q" "has_pk tbl q" by blast
    with assms(4) have "tbl' = table_update tbl q v" "p = q" by (auto simp: save_table_def)
    with filter_table_update_other[OF assms(1,2) q(2) assms(3)] show ?thesis by simp
  next
    case False
    with assms(4) have "tbl' = tbl @ [(p, v)]"
      by (auto simp: save_table_def split: option.splits if_splits)
    with none assms(2) show ?thesis by simp
  qed
qed

lemma table_update_Cons:
  "table_update ((k, r) # tbl) q v = (if k = q then (k, v) else (k, r)) # table_update tbl q v"
  by (simp add: table_update_def)

lemma distinct_field_table_update:
  assumes "distinct (map (\<lambda>(k, r). f r) tbl)" "\<forall>(k, r) \<in> set tbl. f r \<noteq> f v"
    and "distinct (map fst tbl)"
  shows "distinct (map (\<lambda>(k, r). f r) (table_update tbl q v))"
  using assms
proof (induction tbl)
  case Nil then show ?case by (simp add: table_update_def)
next
  case (Cons x tbl)
  obtain k r where x: "x = (k, r)" by (cases x)
  have ih: "distinct (map (\<lambda>(k, r). f r) (table_update tbl q v))"
    using Cons by simp
  show ?case
  proof (cases "k = q")
    case True
    with Cons.prems x have "\<not> has_pk tbl q" by (auto simp: has_pk_def)
    then have same: "table_update tbl q v = tbl"
      by (induction tbl) (auto simp: table_update_def has_pk_def)
    have "f v \<notin> (\<lambda>(k, r). f r) ` set tbl" using Cons.prems(2) by auto
    with same True x Cons.prems(1) show ?thesis by (simp add: table_update_def)
  next
    case False
    have "set (table_update tbl q v) \<subseteq> set tbl \<union> {(q, v)}"
      by (auto simp: table_update_def split: if_splits)
    then have "(\<lambda>(k, r). f r) ` set (table_update tbl q v) \<subseteq> (\<lambda>(k, r). f r) ` set tbl \<union> {f v}"
      by auto
    moreover have "f r \<notin> (\<lambda>(k, r). f r) ` set tbl" "f r \<noteq> f v"
      using Cons.prems(1,2) x by auto
    ultimately have "f r \<notin> (\<lambda>(k, r). f r) ` set (table_update tbl q v)" by blast
    with ih False x show ?thesis
      by (simp add: table_update_Cons)
  qed
qed

lemma distinct_field_save_table:
  assumes "distinct (map (\<lambda>(k, r). f r) tbl)" "\<forall>(k, r) \<in> set tbl. f r \<noteq> f v"
    and "distinct (map fst tbl)" "save_table tbl key v = (tbl', p)"
  shows "distinct (map (\<lambda>(k, r). f r) tbl')"
proof (cases "\<exists>q. key = Some q \<and> has_pk tbl q")
  case True
  then obtain q where q: "key = Some q" "has_pk tbl q" by blast
  with assms(4) have "tbl' = table_update tbl q v" by (auto simp: save_table_def)
  with distinct_field_table_update[OF assms(1,2,3)] show ?thesis by simp
next
  case False
  with assms(4) have "tbl' = tbl @ [(p, v)]"
    by (auto simp: save_table_def split: option.splits if_splits)
  moreover have "f v \<notin> (\<lambda>(k, r). f r) ` set tbl" using assms(2) by auto
  ultimately show ?thesis using assms(1) by simp
qed

lemma UserVerification_save_Inr:
  assumes "UserVerification_save s key v = (s', Inr p)"
  shows "has_pk (authors s) (uv_author v)"
    and "\<exists>tbl. save_table (filter (\<lambda>(k, r). uv_author r \<noteq> uv_author v) (userverifications s)) key v = (tbl, p)
          \<and> s' = s\<lparr>userverifications := tbl\<rparr>"
  using assms by (auto simp: UserVerification_save_def Let_def split: if_splits prod.splits)

lemma UserVerification_save_set:
  assumes "UserVerification_save s key v = (s', Inr p)" "distinct (map fst (userverifications s))"
  shows "userverification_set s' (uv_author v) = [(p, v)]"
proof -
  let ?kept = "filter (\<lambda>(k, r). uv_author r \<noteq> uv_author v) (userverifications s)"
  from UserVerification_save_Inr(2)[OF assms(1)] obtain tbl where
    t: "save_table ?kept key v = (tbl, p)" "s' = s\<lparr>userverifications := tbl\<rparr>" by blast
  have d: "distinct (map fst ?kept)" using assms(2) by (simp add: distinct_map_filter)
  have "filter (\<lambda>(k, r). uv_author r = uv_author v) tbl = [(p, v)]"
    by (rule filter_save_table_other[where P = "\<lambda>r. uv_author r = uv_author v", OF _ _ d t(1)]) auto
  with t(2) show ?thesis by (simp add: userverification_set_def)
qed

lemma UserVerification_save_inv:
  assumes "distinct (map fst (userverifications s))" "one_token_per_account s"
  shows "distinct (map fst (userverifications (fst (UserVerification_save s key v))))
       \<and> one_token_per_account (fst (UserVerification_save s key v))"
proof (cases "has_pk (authors s) (uv_author v)")
  case False
  with assms show ?thesis by (simp add: UserVerification_save_def)
next
  case True
  let ?kept = "filter (\<lambda>(k, r). uv_author r \<noteq> uv_author v) (userverifications s)"
  obtain tbl p where t: "save_table ?kept key v = (tbl, p)" by (cases "save_table ?kept key v")
  with True have s': "fst (UserVerification_save s key v) = s\<lparr>userverifications := tbl\<rparr>"
    by (simp add: UserVerification_save_def)
  have d: "distinct (map fst ?kept)" using assms(1) by (simp add: distinct_map_filter)
  have da: "distinct (map (\<lambda>(k, r). uv_author r) ?kept)"
    using assms(2) by (simp add: one_token_per_account_def distinct_map_filter)
  have "distinct (map (\<lambda>(k, r). uv_author r) tbl)"
    by (rule distinct_field_save_table[OF da _ d t]) auto
  with distinct_save_table[OF d t] s' show ?thesis by (simp add: one_token_per_account_def)
qed

lemma issue_tokens_inv:
  "distinct (map fst (userverifications s)) \<Longrightarrow> one_token_per_account s \<Longrightarrow>
   distinct (map fst (userverifications (issue_tokens s ops))) \<and> one_token_per_account (issue_tokens s ops)"
proof (induction ops arbitrary: s)
  case Nil then show ?case by simp
next
  case (Cons x ops)
  obtain key v where x: "x = (key, v)" by (cases x)
  from UserVerification_save_inv[OF Cons.prems, of key v] Cons.IH x show ?case by simp
qed

subsection \<open>email\_confirmed\<close>

lemma email_confirmed_iff:
  "email_confirmed s a now = (\<not> (\<exists>(k, r) \<in> set (userverifications s). uv_author r = a \<and> fresh now r))"
proof -
  have "fresh now r = (now - timedelta_hours 24 \<le> expiration_date r)" for r
    by (auto simp: fresh_def timedelta_hours_def)
  then show ?thesis
    by (auto simp: email_confirmed_def userverification_set_def filter_empty_conv)
qed

text \<open>
  Claim C1. \<open>email_confirmed\<close> is false exactly when some verification token of the
  account is fresh under the 24-hour window, and true otherwise. In particular it is true
  for an account with no token; and after a token is saved for the account, it is false
  as long as at most 24 hours have passed since the token's reference time
  (\<open>expiration_date\<close>, which the issuer supplies) and true once more than 24 hours have
  passed, with nothing else done.
\<close>

theorem email_confirmed_window:
  "email_confirmed s a now = (\<not> (\<exists>(k, r) \<in> set (userverifications s). uv_author r = a \<and> fresh now r))
   \<and> (userverification_set s a = [] \<longrightarrow> email_confirmed s a now)
   \<and> (distinct (map fst (userverifications s)) \<longrightarrow> UserVerification_save s key v = (s', Inr p) \<longrightarrow>
        email_confirmed s' (uv_author v) now = (timedelta_hours 24 < now - expiration_date v))"
proof (intro conjI impI)
  show "email_confirmed s a now = (\<not> (\<exists>(k, r) \<in> set (userverifications s). uv_author r = a \<and> fresh now r))"
    by (rule email_confirmed_iff)
next
  assume "userverification_set s a = []"
  then show "email_confirmed s a now" by (simp add: email_confirmed_def)
next
  assume "distinct (map fst (userverifications s))" "UserVerification_save s key v = (s', Inr p)"
  from UserVerification_save_set[OF this(2,1)]
  show "email_confirmed s' (uv_author v) now = (timedelta_hours 24 < now - expiration_date v)"
    by (auto simp: email_confirmed_def)
qed

theorem email_confirmed_window_witness:
  "email_confirmed db1 1 1000
   \<and> \<not> email_confirmed (db1\<lparr>userverifications := [(1, tok 1 ''first'' 1000)]\<rparr>) 1 1000
   \<and> \<not> email_confirmed (db1\<lparr>userverifications := [(1, tok 1 ''first'' 1000)]\<rparr>) 1 86400001000
   \<and> email_confirmed (db1\<lparr>userverifications := [(1, tok 1 ''first'' 1000)]\<rparr>) 1 86400001001"
proof -
  have sv: "UserVerification_save db1 None (tok 1 ''first'' 1000)
      = (db1\<lparr>userverifications := [(1, tok 1 ''first'' 1000)]\<rparr>, Inr 1)"
    by (simp add: UserVerification_save_def db1_def empty_db_def has_pk_def save_table_def new_pk_def tok_def)
  have d: "userverifications db1 = []" "userverification_set db1 1 = []"
    by (simp_all add: db1_def empty_db_def userverification_set_def)
  have a: "uv_author (tok 1 ''first'' 1000) = 1" "expiration_date (tok 1 ''first'' 1000) = 1000"
    by (simp_all add: tok_def)
  show ?thesis
    using email_confirmed_window[of db1 1 1000 None "tok 1 ''first'' 1000"
        "db1\<lparr>userverifications := [(1, tok 1 ''first'' 1000)]\<rparr>" 1]
      email_confirmed_window[of db1 1 86400001000 None "tok 1 ''first'' 1000"
        "db1\<lparr>userverifications := [(1, tok 1 ''first'' 1000)]\<rparr>" 1]
      email_confirmed_window[of db1 1 86400001001 None "tok 1 ''first'' 1000"
        "db1\<lparr>userverifications := [(1, tok 1 ''first'' 1000)]\<rparr>" 1]
      sv d a
    by (simp add: timedelta_hours_def)
qed

subsection \<open>One token row per account\<close>

lemma UserVerification_save_ok:
  assumes "has_pk (authors s) (uv_author v)" "distinct (map fst (userverifications s))"
  shows "\<exists>s' p. UserVerification_save s key v = (s', Inr p)
      \<and> userverification_set s' (uv_author v) = [(p, v)] \<and> authors s' = authors s"
proof -
  let ?kept = "filter (\<lambda>(k, r). uv_author r \<noteq> uv_author v) (userverifications s)"
  obtain tbl p where t: "save_table ?kept key v = (tbl, p)" by (cases "save_table ?kept key v")
  with assms(1) have sv: "UserVerification_save s key v = (s\<lparr>userverifications := tbl\<rparr>, Inr p)"
    by (simp add: UserVerification_save_def)
  from UserVerification_save_set[OF sv assms(2)] sv show ?thesis by simp
qed

lemma authors_UserVerification_save:
  "authors (fst (UserVerification_save s key v)) = authors s"
  by (simp add: UserVerification_save_def Let_def split: prod.splits)

lemma authors_issue_tokens: "authors (issue_tokens s ops) = authors s"
proof (induction ops arbitrary: s)
  case Nil show ?case by simp
next
  case (Cons x ops)
  obtain key v where "x = (key, v)" by (cases x)
  with Cons[of "fst (UserVerification_save s key v)"] show ?case
    by (simp add: authors_UserVerification_save)
qed

lemma issue_tokens_append:
  "issue_tokens s (ops @ ops') = issue_tokens (issue_tokens s ops) ops'"
proof (induction ops arbitrary: s)
  case Nil show ?case by simp
next
  case (Cons x ops)
  obtain key v where "x = (key, v)" by (cases x)
  with Cons show ?case by simp
qed

lemma issue_tokens_last:
  assumes "distinct (map fst (userverifications s))" "one_token_per_account s"
    and "has_pk (authors s) (uv_author v)"
  shows "\<exists>p. userverification_set (issue_tokens s (ops @ [(key, v)])) (uv_author v) = [(p, v)]"
proof -
  let ?s = "issue_tokens s ops"
  have d: "distinct (map fst (userverifications ?s))" using issue_tokens_inv[OF assms(1,2)] by simp
  have h: "has_pk (authors ?s) (uv_author v)" using assms(3) by (simp add: authors_issue_tokens)
  from UserVerification_save_ok[OF h d, of key] obtain s' p where
    "UserVerification_save ?s key v = (s', Inr p)" "userverification_set s' (uv_author v) = [(p, v)]"
    by blast
  then have "userverification_set (issue_tokens s (ops @ [(key, v)])) (uv_author v) = [(p, v)]"
    by (simp add: issue_tokens_append)
  then show ?thesis by blast
qed

lemma save_first_token:
  "UserVerification_save db1 None (tok 1 ''first'' 0)
     = (db1\<lparr>userverifications := [(1, tok 1 ''first'' 0)]\<rparr>, Inr 1)"
  by (simp add: UserVerification_save_def db1_def empty_db_def has_pk_def save_table_def new_pk_def tok_def)

lemma save_second_token:
  "UserVerification_save (db1\<lparr>userverifications := [(1, tok 1 ''first'' 0)]\<rparr>) None (tok 1 ''second'' 5)
     = (db1\<lparr>userverifications := [(1, tok 1 ''second'' 5)]\<rparr>, Inr 1)"
  by (simp add: UserVerification_save_def db1_def empty_db_def has_pk_def save_table_def new_pk_def tok_def)

text \<open>
  Claim C2. From a token table with at most one row per account, every sequence of token
  saves leaves at most one row per account, and after a save for an existing account the
  account's only row is the token just saved. Saving a token for an existing account twice
  in succession succeeds both times: after the first save the account's only row is the
  first token, after the second its only row is the second token.
\<close>

theorem token_single_row:
  assumes "distinct (map fst (userverifications s))" and "one_token_per_account s"
  shows "one_token_per_account (issue_tokens s ops)
    \<and> (has_pk (authors s) (uv_author v) \<longrightarrow>
          (\<exists>p. userverification_set (issue_tokens s (ops @ [(key, v)])) (uv_author v) = [(p, v)]))
    \<and> (has_pk (authors s) (uv_author v1) \<and> uv_author v2 = uv_author v1 \<longrightarrow>
          (\<exists>s1 p1 s2 p2. UserVerification_save s k1 v1 = (s1, Inr p1)
             \<and> userverification_set s1 (uv_author v1) = [(p1, v1)]
             \<and> UserVerification_save s1 k2 v2 = (s2, Inr p2)
             \<and> userverification_set s2 (uv_author v1) = [(p2, v2)]))"
proof (intro conjI impI)
  show "one_token_per_account (issue_tokens s ops)" using issue_tokens_inv[OF assms] by simp
next
  assume "has_pk (authors s) (uv_author v)"
  from issue_tokens_last[OF assms this]
  show "\<exists>p. userverification_set (issue_tokens s (ops @ [(key, v)])) (uv_author v) = [(p, v)]" .
next
  assume a: "has_pk (authors s) (uv_author v1) \<and> uv_author v2 = uv_author v1"
  from UserVerification_save_ok[OF _ assms(1), of v1 k1] a obtain s1 p1 where
    1: "UserVerification_save s k1 v1 = (s1, Inr p1)"
       "userverification_set s1 (uv_author v1) = [(p1, v1)]" "authors s1 = authors s" by blast
  have "s1 = fst (UserVerification_save s k1 v1)" using 1(1) by simp
  with UserVerification_save_inv[OF assms, of k1 v1]
  have d1: "distinct (map fst (userverifications s1))" by simp
  have h1: "has_pk (authors s1) (uv_author v2)" using a 1(3) by simp
  from UserVerification_save_ok[OF h1 d1, of k2] a obtain s2 p2 where
    2: "UserVerification_save s1 k2 v2 = (s2, Inr p2)"
       "userverification_set s2 (uv_author v1) = [(p2, v2)]" by auto
  from 1(1,2) 2 show "\<exists>s1 p1 s2 p2. UserVerification_save s k1 v1 = (s1, Inr p1)
             \<and> userverification_set s1 (uv_author v1) = [(p1, v1)]
             \<and> UserVerification_save s1 k2 v2 = (s2, Inr p2)
             \<and> userverification_set s2 (uv_author v1) = [(p2, v2)]" by blast
qed

theorem token_single_row_witness:
  "UserVerification_save db1 None (tok 1 ''first'' 0)
     = (db1\<lparr>userverifications := [(1, tok 1 ''first'' 0)]\<rparr>, Inr 1)
   \<and> UserVerification_save (db1\<lparr>userverifications := [(1, tok 1 ''first'' 0)]\<rparr>) None (tok 1 ''second'' 5)
     = (db1\<lparr>userverifications := [(1, tok 1 ''second'' 5)]\<rparr>, Inr 1)
   \<and> issue_tokens db1 [(None, tok 1 ''first'' 0), (None, tok 1 ''second'' 5)]
     = db1\<lparr>userverifications := [(1, tok 1 ''second'' 5)]\<rparr>
   \<and> userverification_set (issue_tokens db1 [(None, tok 1 ''first'' 0), (None, tok 1 ''second'' 5)]) 1
     = [(1, tok 1 ''second'' 5)]
   \<and> one_token_per_account (issue_tokens db1 [(None, tok 1 ''first'' 0), (None, tok 1 ''second'' 5)])"
proof -
  have d: "distinct (map fst (userverifications db1))" "one_token_per_account db1"
    by (simp_all add: db1_def empty_db_def one_token_per_account_def)
  have a: "uv_author (tok 1 ''first'' 0) = 1" "uv_author (tok 1 ''second'' 5) = 1"
    by (simp_all add: tok_def)
  have i: "issue_tokens db1 [(None, tok 1 ''first'' 0), (None, tok 1 ''second'' 5)]
     = db1\<lparr>userverifications := [(1, tok 1 ''second'' 5)]\<rparr>"
    by (simp only: issue_tokens.simps save_first_token save_second_token fst_conv)
  have u: "userverification_set (db1\<lparr>userverifications := [(1, tok 1 ''second'' 5)]\<rparr>) 1
     = [(1, tok 1 ''second'' 5)]"
    by (simp add: userverification_set_def tok_def)
  show ?thesis
    using token_single_row[OF d, where ops = "[(None, tok 1 ''first'' 0), (None, tok 1 ''second'' 5)]"
        and v = "tok 1 ''second'' 5" and key = None and ?v1.0 = "tok 1 ''first'' 0"
        and ?v2.0 = "tok 1 ''second'' 5" and ?k1.0 = None and ?k2.0 = None]
      save_first_token save_second_token i u
    by simp
qed

subsection \<open>entry\_nice\<close>

lemma sort_key_head_least:
  assumes "sort_key f xs = x # rest"
  shows "x \<in> set xs \<and> (\<forall>y \<in> set xs. f x \<le> f y)"
proof -
  have "sorted (map f (x # rest))" using sorted_sort_key[of f xs] assms by simp
  then have "\<forall>y \<in> set (x # rest). f x \<le> f y" by auto
  moreover have "set (x # rest) = set xs" using set_sort[of f xs] assms by simp
  ultimately show ?thesis by auto
qed

lemma entry_nice_Some:
  assumes "entry_nice s a = Some x"
  shows "x \<in> set (published_of s a) \<and> 1 < vote_rate (snd x)
     \<and> (\<forall>(k, e) \<in> set (published_of s a). vote_rate e \<le> vote_rate (snd x))"
proof -
  from assms obtain rest where
    srt: "sort_key (\<lambda>(k, e). - vote_rate e) (published_of s a) = x # rest" and gt: "1 < vote_rate (snd x)"
    by (auto simp: entry_nice_def split: list.splits if_splits)
  from sort_key_head_least[OF srt] gt show ?thesis by (auto simp: case_prod_beta)
qed

lemma entry_nice_None:
  "(entry_nice s a = None) = (\<forall>(k, e) \<in> set (published_of s a). vote_rate e \<le> 1)"
proof (cases "sort_key (\<lambda>(k, e). - vote_rate e) (published_of s a)")
  case Nil
  then have "published_of s a = []" using length_sort[of "\<lambda>(k, e). - vote_rate e" "published_of s a"] by simp
  with Nil show ?thesis by (simp add: entry_nice_def)
next
  case (Cons x rest)
  from sort_key_head_least[OF Cons] have
    x: "x \<in> set (published_of s a)" "\<forall>y \<in> set (published_of s a). vote_rate (snd y) \<le> vote_rate (snd x)"
    by (auto simp: case_prod_beta)
  show ?thesis
  proof (cases "1 < vote_rate (snd x)")
    case True
    then have "\<not> vote_rate (snd x) \<le> 1" by simp
    with x(1) have "\<not> (\<forall>y \<in> set (published_of s a). vote_rate (snd y) \<le> 1)" by blast
    with Cons True show ?thesis by (simp add: entry_nice_def case_prod_beta)
  next
    case False
    with x(2) have "\<forall>y \<in> set (published_of s a). vote_rate (snd y) \<le> 1" by force
    with Cons False show ?thesis by (auto simp: entry_nice_def case_prod_beta)
  qed
qed

text \<open>
  Claim C7. \<open>entry_nice\<close> returns none when the account has no published entry or
  when no published entry of the account has a vote rate above 1; otherwise it returns a
  published entry of the account whose vote rate is the highest and strictly exceeds 1.
\<close>

theorem entry_nice_gate:
  "(entry_nice s a = None) =
     (published_of s a = [] \<or> (\<forall>(k, e) \<in> set (published_of s a). vote_rate e \<le> 1))
   \<and> (\<forall>x. entry_nice s a = Some x \<longrightarrow>
         x \<in> set (published_of s a) \<and> 1 < vote_rate (snd x) \<and>
         (\<forall>(k, e) \<in> set (published_of s a). vote_rate e \<le> vote_rate (snd x)))"
  using entry_nice_None[of s a] entry_nice_Some[of s a] by auto

lemma published_db2:
  "published_of db2 1 = [(1, ent 1 (1/2) True), (2, ent 1 (3/2) True)]"
  "published_of db2 2 = [(4, ent 2 1 True), (5, ent 2 (1/4) True)]"
  "published_of db2 3 = []"
  by (simp_all add: published_of_def objects_published_def db2_def ent_def)

lemma entry_nice_db2:
  "entry_nice db2 1 = Some (2, ent 1 (3/2) True)"
  "entry_nice db2 2 = None"
  "entry_nice db2 3 = None"
  unfolding entry_nice_def published_db2 by (simp_all add: ent_def)

theorem entry_nice_gate_witness:
  "entry_nice db2 1 = Some (2, ent 1 (3/2) True) \<and> (1::rat) < 3/2
   \<and> entry_nice db2 2 = None \<and> entry_nice db2 3 = None \<and> published_of db2 3 = []
   \<and> published_of db2 2 \<noteq> []"
  using entry_nice_gate[of db2 1] entry_nice_gate[of db2 2] entry_nice_gate[of db2 3]
    entry_nice_db2 published_db2
  by simp

subsection \<open>The handle pattern\<close>

lemma match_rest_class: "\<forall>c \<in> set cs. in_class c \<Longrightarrow> match_rest cs"
  by (induction cs) (auto simp: at_dollar_def)

lemma nick_regex_search_class:
  "s \<noteq> [] \<Longrightarrow> \<forall>c \<in> set s. in_class c \<Longrightarrow> nick_regex_search s"
  by (cases s) (auto simp: nick_regex_search_def match_rest_class)

lemma match_rest_iff:
  "match_rest cs = (\<exists>body. (\<forall>c \<in> set body. in_class c) \<and> (cs = body \<or> cs = body @ [10]))"
proof (induction cs)
  case Nil
  show ?case by (auto simp: at_dollar_def)
next
  case (Cons c cs)
  show ?case
  proof
    assume "match_rest (c # cs)"
    then consider "in_class c" "match_rest cs" | "at_dollar (c # cs)" by auto
    then show "\<exists>body. (\<forall>c \<in> set body. in_class c) \<and> (c # cs = body \<or> c # cs = body @ [10])"
    proof cases
      case 1
      with Cons obtain body where "\<forall>c \<in> set body. in_class c" "cs = body \<or> cs = body @ [10]" by blast
      with 1(1) show ?thesis by (intro exI[of _ "c # body"]) auto
    next
      case 2
      then show ?thesis by (intro exI[of _ "[]"]) (auto simp: at_dollar_def)
    qed
  next
    assume "\<exists>body. (\<forall>c \<in> set body. in_class c) \<and> (c # cs = body \<or> c # cs = body @ [10])"
    then obtain body where b: "\<forall>c \<in> set body. in_class c" "c # cs = body \<or> c # cs = body @ [10]" by blast
    show "match_rest (c # cs)"
    proof (cases body)
      case Nil
      with b(2) show ?thesis by (auto simp: at_dollar_def)
    next
      case (Cons d body')
      with b have "in_class c" "\<forall>c \<in> set body'. in_class c" "cs = body' \<or> cs = body' @ [10]" by auto
      with Cons.IH show ?thesis by auto
    qed
  qed
qed

lemma nick_regex_search_iff:
  "nick_regex_search s =
     (\<exists>body. body \<noteq> [] \<and> (\<forall>c \<in> set body. in_class c) \<and> (s = body \<or> s = body @ [10]))"
proof (cases s)
  case Nil
  then show ?thesis by (auto simp: nick_regex_search_def)
next
  case (Cons c cs)
  show ?thesis
  proof
    assume "nick_regex_search s"
    with Cons have "in_class c" "match_rest cs" by (auto simp: nick_regex_search_def)
    then obtain body where "\<forall>c \<in> set body. in_class c" "cs = body \<or> cs = body @ [10]"
      by (auto simp: match_rest_iff)
    with \<open>in_class c\<close> Cons show "\<exists>body. body \<noteq> [] \<and> (\<forall>c \<in> set body. in_class c) \<and> (s = body \<or> s = body @ [10])"
      by (intro exI[of _ "c # body"]) auto
  next
    assume "\<exists>body. body \<noteq> [] \<and> (\<forall>c \<in> set body. in_class c) \<and> (s = body \<or> s = body @ [10])"
    then obtain body where b: "body \<noteq> []" "\<forall>c \<in> set body. in_class c" "s = body \<or> s = body @ [10]" by blast
    then obtain d body' where d: "body = d # body'" by (cases body) auto
    with b Cons have "in_class c" "\<forall>c \<in> set body'. in_class c" "cs = body' \<or> cs = body' @ [10]" by auto
    then have "in_class c" "match_rest cs" by (auto simp: match_rest_iff)
    with Cons show "nick_regex_search s" by (simp add: nick_regex_search_def)
  qed
qed

lemma AuthorNickValidator_refuses:
  assumes "c \<in> set h" "\<not> in_class c"
    and "\<not> (\<exists>body. body \<noteq> [] \<and> (\<forall>c \<in> set body. in_class c) \<and> h = body @ [10])"
  shows "AuthorNickValidator h = [V_invalid]"
proof -
  have "\<not> nick_regex_search h"
  proof
    assume "nick_regex_search h"
    then obtain body where b: "body \<noteq> []" "\<forall>c \<in> set body. in_class c" "h = body \<or> h = body @ [10]"
      unfolding nick_regex_search_iff by blast
    with assms(3) have "h = body" by blast
    with b(2) assms(1,2) show False by blast
  qed
  then show ?thesis by (simp add: AuthorNickValidator_def)
qed

lemma AuthorNickValidator_accepts:
  "h \<noteq> [] \<Longrightarrow> \<forall>c \<in> set h. in_class c \<Longrightarrow> AuthorNickValidator h = []"
  by (simp add: AuthorNickValidator_def nick_regex_search_class)

text \<open>
  Claim C4, at the handle \<open>"abc\n"\<close>. The newline is outside \<open>[a-z ]\<close>, yet the
  validator accepts the handle, since \<open>$\<close> matches before a final newline:
  \<open>full_clean\<close> reports no error and \<open>save\<close> stores the account.
\<close>

theorem nick_trailing_newline:
  "\<not> in_class 10
   \<and> AuthorNickValidator (str_of ''abc'' @ [10]) = []
   \<and> username_clean (str_of ''abc'' @ [10]) = Inr (str_of ''abc'' @ [10])
   \<and> Author_full_clean (\<lambda>e. True) (\<lambda>e. e) empty_db (new_author (str_of ''abc'' @ [10]) (str_of ''a@b.co'')) = []
   \<and> Author_save empty_db None (new_author (str_of ''abc'' @ [10]) (str_of ''a@b.co''))
       = (empty_db\<lparr>authors := [(1, new_author (str_of ''abc'' @ [10]) (str_of ''a@b.co''))]\<rparr>, Inr 1)"
proof -
  have v: "AuthorNickValidator (str_of ''abc'' @ [10]) = []" "\<not> in_class 10"
    by (simp_all add: AuthorNickValidator_def nick_regex_search_def str_of_def in_class_def at_dollar_def)
  have u: "username_clean (str_of ''abc'' @ [10]) = Inr (str_of ''abc'' @ [10])"
    by (simp add: username_clean_def MaxLengthValidator_def v) (simp add: str_of_def)
  have f: "Author_full_clean (\<lambda>e. True) (\<lambda>e. e) empty_db (new_author (str_of ''abc'' @ [10]) (str_of ''a@b.co'')) = []"
    by (simp add: Author_full_clean_def field_errors_def email_clean_def username_clean_def
        MaxLengthValidator_def AuthorNickValidator_def nick_regex_search_def str_of_def in_class_def
        at_dollar_def empty_db_def new_author_def)
  have s: "Author_save empty_db None (new_author (str_of ''abc'' @ [10]) (str_of ''a@b.co''))
       = (empty_db\<lparr>authors := [(1, new_author (str_of ''abc'' @ [10]) (str_of ''a@b.co''))]\<rparr>, Inr 1)"
    by (simp add: Author_save_def unique_violation_def fk_violation_def save_table_def new_pk_def
        m2m_add_def empty_db_def new_author_def)
  from v u f s show ?thesis by simp
qed

subsection \<open>The handle's maximum length\<close>

lemma username_clean_ok:
  "h \<noteq> [] \<Longrightarrow> \<forall>c \<in> set h. in_class c \<Longrightarrow> length h \<le> 50 \<Longrightarrow> username_clean h = Inr h"
  by (simp add: username_clean_def AuthorNickValidator_def MaxLengthValidator_def nick_regex_search_class)

lemma username_clean_long:
  "50 < length h \<Longrightarrow> \<exists>errs. username_clean h = Inl errs \<and> V_max_length \<in> set errs"
  by (auto simp: username_clean_def AuthorNickValidator_def MaxLengthValidator_def Let_def)

text \<open>
  Claim C10. A handle longer than 50 characters fails validation with the maximum-length
  error, whatever its characters: the field's own check and \<open>full_clean\<close> both report it.
  A non-empty handle of lowercase letters and spaces of at most 50 characters passes.
\<close>

theorem handle_max_length:
  "(50 < length (username a) \<longrightarrow>
      (\<exists>errs. username_clean (username a) = Inl errs \<and> V_max_length \<in> set errs)
      \<and> (''username'', V_max_length) \<in> set (Author_full_clean ve ne s a))
   \<and> (username a \<noteq> [] \<and> (\<forall>c \<in> set (username a). in_class c) \<and> length (username a) \<le> 50 \<longrightarrow>
      username_clean (username a) = Inr (username a))"
proof (intro conjI impI)
  assume l: "50 < length (username a)"
  from username_clean_long[OF l] obtain errs where
    e: "username_clean (username a) = Inl errs" "V_max_length \<in> set errs" by blast
  then show "\<exists>errs. username_clean (username a) = Inl errs \<and> V_max_length \<in> set errs" by blast
  from e show "(''username'', V_max_length) \<in> set (Author_full_clean ve ne s a)"
    by (simp add: Author_full_clean_def Let_def field_errors_def)
next
  assume "username a \<noteq> [] \<and> (\<forall>c \<in> set (username a). in_class c) \<and> length (username a) \<le> 50"
  then show "username_clean (username a) = Inr (username a)" by (simp add: username_clean_ok)
qed

lemma long_nick_facts: "length long_nick = 51" "\<forall>c \<in> set long_nick. in_class c" "long_nick \<noteq> []"
  by (simp_all add: long_nick_def in_class_def)

theorem handle_max_length_witness:
  "length long_nick = 51 \<and> list_all in_class long_nick
   \<and> username_clean long_nick = Inl [V_max_length]
   \<and> (''username'', V_max_length) \<in> set (Author_full_clean (\<lambda>e. True) (\<lambda>e. e) empty_db (new_author long_nick (str_of ''a@b.co'')))
   \<and> username_clean (str_of ''ali veli'') = Inr (str_of ''ali veli'')"
proof -
  have u: "username (new_author long_nick (str_of ''a@b.co'')) = long_nick"
    "username (new_author (str_of ''ali veli'') (str_of ''a@b.co'')) = str_of ''ali veli''"
    by (simp_all add: new_author_def)
  have c: "\<forall>c \<in> set (str_of ''ali veli''). in_class c" "str_of ''ali veli'' \<noteq> []" "length (str_of ''ali veli'') \<le> 50"
    by (simp_all add: str_of_def in_class_def)
  have n: "nick_regex_search long_nick"
    using long_nick_facts by (intro nick_regex_search_class) auto
  have v: "username_clean long_nick = Inl [V_max_length]"
    using n long_nick_facts(1,3) by (simp add: username_clean_def AuthorNickValidator_def MaxLengthValidator_def Let_def)
  show ?thesis
    using handle_max_length[of "new_author long_nick (str_of ''a@b.co'')" "\<lambda>e. True" "\<lambda>e. e" empty_db]
      handle_max_length[of "new_author (str_of ''ali veli'') (str_of ''a@b.co'')" "\<lambda>e. True" "\<lambda>e. e" empty_db]
      u c v long_nick_facts
    by (simp add: list_all_iff)
qed

subsection \<open>Unique handle and email\<close>

lemma unique_violation_dup:
  "(k, r) \<in> set tbl \<Longrightarrow> Some k \<noteq> key \<Longrightarrow> username r = username a \<or> email r = email a \<Longrightarrow>
   unique_violation tbl key a"
  unfolding unique_violation_def by fast

lemma username_clean_Inl_nonempty: "username_clean h = Inl errs \<Longrightarrow> errs \<noteq> []"
  by (auto simp: username_clean_def Let_def split: if_splits)

lemma email_clean_Inl_nonempty: "email_clean ve h = Inl errs \<Longrightarrow> errs \<noteq> []"
  by (auto simp: email_clean_def Let_def split: if_splits)

lemma field_errors_fst: "(f', c) \<in> set (field_errors f r) \<Longrightarrow> f' = f"
  by (auto simp: field_errors_def split: sum.splits)

lemma field_errors_not_unique:
  "(f, V_unique) \<notin> set (field_errors f (username_clean h))"
  "(f, V_unique) \<notin> set (field_errors f (email_clean ve h))"
  by (auto simp: field_errors_def username_clean_def email_clean_def AuthorNickValidator_def
      MaxLengthValidator_def Let_def split: sum.splits if_splits)

lemma field_errors_empty_iff_username:
  "(field_errors f (username_clean h) = []) = (\<exists>u. username_clean h = Inr u)"
  using username_clean_Inl_nonempty[of h]
  by (cases "username_clean h") (auto simp: field_errors_def)

lemma field_errors_empty_iff_email:
  "(field_errors f (email_clean ve h) = []) = (\<exists>u. email_clean ve h = Inr u)"
  using email_clean_Inl_nonempty[of ve h]
  by (cases "email_clean ve h") (auto simp: field_errors_def)

lemma full_clean_username:
  assumes "(k, r) \<in> set (authors s)" "username r = username a"
  shows "((''username'', V_unique) \<in> set (Author_full_clean ve ne s a))
           = (\<exists>u. username_clean (username a) = Inr u)"
    and "\<exists>c. (''username'', c) \<in> set (Author_full_clean ve ne s a)"
proof -
  have ex: "\<exists>(k, r) \<in> set (authors s). username r = username a" using assms by fast
  have ne: "field_errors ''email'' (email_clean ve (email a)) \<noteq> [] \<Longrightarrow>
      (''username'', V_unique) \<notin> set (field_errors ''email'' (email_clean ve (email a)))"
    using field_errors_fst[of "''username''" V_unique "''email''"] by auto
  show "((''username'', V_unique) \<in> set (Author_full_clean ve ne s a))
           = (\<exists>u. username_clean (username a) = Inr u)"
    using ex field_errors_not_unique(1)[of "''username''" "username a"]
      field_errors_fst[of "''username''" V_unique "''email''" "email_clean ve (email a)"]
    by (auto simp: Author_full_clean_def Let_def field_errors_empty_iff_username)
  show "\<exists>c. (''username'', c) \<in> set (Author_full_clean ve ne s a)"
  proof (cases "field_errors ''username'' (username_clean (username a))")
    case Nil
    with ex have "(''username'', V_unique) \<in> set (Author_full_clean ve ne s a)"
      by (simp add: Author_full_clean_def Let_def)
    then show ?thesis by blast
  next
    case (Cons x xs)
    then have xin: "x \<in> set (field_errors ''username'' (username_clean (username a)))" by simp
    then have "fst x = ''username''"
      using field_errors_fst[of "fst x" "snd x"] by simp
    then have x: "x = (''username'', snd x)" by (cases x) simp
    have "set (field_errors ''username'' (username_clean (username a))) \<subseteq> set (Author_full_clean ve ne s a)"
      by (auto simp: Author_full_clean_def Let_def)
    with xin have "x \<in> set (Author_full_clean ve ne s a)" by blast
    with x show ?thesis by metis
  qed
qed

lemma full_clean_email:
  assumes "(k, r) \<in> set (authors s)" "email r = ne (email a)"
  shows "((''email'', V_unique) \<in> set (Author_full_clean ve ne s a))
           = (\<exists>u. email_clean ve (email a) = Inr u)"
    and "\<exists>c. (''email'', c) \<in> set (Author_full_clean ve ne s a)"
proof -
  have ex: "\<exists>(k, r) \<in> set (authors s). email r = ne (email a)" using assms by fast
  show "((''email'', V_unique) \<in> set (Author_full_clean ve ne s a))
           = (\<exists>u. email_clean ve (email a) = Inr u)"
    using ex field_errors_not_unique(2)[of "''email''" ve "email a"]
      field_errors_fst[of "''email''" V_unique "''username''" "username_clean (username a)"]
    by (auto simp: Author_full_clean_def Let_def field_errors_empty_iff_email)
  show "\<exists>c. (''email'', c) \<in> set (Author_full_clean ve ne s a)"
  proof (cases "field_errors ''email'' (email_clean ve (email a))")
    case Nil
    with ex have "(''email'', V_unique) \<in> set (Author_full_clean ve ne s a)"
      by (simp add: Author_full_clean_def Let_def)
    then show ?thesis by blast
  next
    case (Cons x xs)
    then have xin: "x \<in> set (field_errors ''email'' (email_clean ve (email a)))" by simp
    then have "fst x = ''email''"
      using field_errors_fst[of "fst x" "snd x"] by simp
    then have x: "x = (''email'', snd x)" by (cases x) simp
    have "set (field_errors ''email'' (email_clean ve (email a))) \<subseteq> set (Author_full_clean ve ne s a)"
      by (auto simp: Author_full_clean_def Let_def)
    with xin have "x \<in> set (Author_full_clean ve ne s a)" by blast
    with x show ?thesis by metis
  qed
qed

text \<open>
  Claim C6, as amended. Stored handles and emails are unique: every save, insert or
  update, whose handle or email is that of another stored account raises IntegrityError
  and leaves the database, and so the first account, as it was. IntegrityError is the
  database's error for any violated constraint, not one of its own for a taken handle.
  \<open>full_clean\<close> of a new account reports an error on a handle that is taken, and on an
  email that is taken once \<open>Model.clean\<close> has rewritten it: the \<open>unique\<close> error exactly
  when the field passes its own checks, and the field's own error otherwise.
\<close>

theorem handle_email_unique:
  assumes "(k, r) \<in> set (authors s)" and "Some k \<noteq> key"
  shows "(username r = username a \<or> email r = email a \<longrightarrow>
            Author_save s key a = (s, Inl IntegrityError))
    \<and> (username r = username a \<longrightarrow>
          (\<exists>c. (''username'', c) \<in> set (Author_full_clean ve ne s a))
          \<and> ((''username'', V_unique) \<in> set (Author_full_clean ve ne s a))
              = (\<exists>u. username_clean (username a) = Inr u))
    \<and> (email r = ne (email a) \<longrightarrow>
          (\<exists>c. (''email'', c) \<in> set (Author_full_clean ve ne s a))
          \<and> ((''email'', V_unique) \<in> set (Author_full_clean ve ne s a))
              = (\<exists>u. email_clean ve (email a) = Inr u))"
proof (intro conjI impI)
  assume "username r = username a \<or> email r = email a"
  from unique_violation_dup[OF assms this]
  show "Author_save s key a = (s, Inl IntegrityError)" by (simp add: Author_save_def)
next
  assume u: "username r = username a"
  show "\<exists>c. (''username'', c) \<in> set (Author_full_clean ve ne s a)"
    by (rule full_clean_username(2)[OF assms(1) u])
  show "((''username'', V_unique) \<in> set (Author_full_clean ve ne s a))
      = (\<exists>u. username_clean (username a) = Inr u)"
    by (rule full_clean_username(1)[OF assms(1) u])
next
  assume e: "email r = ne (email a)"
  show "\<exists>c. (''email'', c) \<in> set (Author_full_clean ve ne s a)"
    by (rule full_clean_email(2)[where ne = ne, OF assms(1) e])
  show "((''email'', V_unique) \<in> set (Author_full_clean ve ne s a))
      = (\<exists>u. email_clean ve (email a) = Inr u)"
    by (rule full_clean_email(1)[where ne = ne, OF assms(1) e])
qed

lemma db1_ali: "(1, new_author (str_of ''ali'') (str_of ''ali@example.com'')) \<in> set (authors db1)"
  by (simp add: db1_def empty_db_def)

lemma ali_clean: "username_clean (str_of ''ali'') = Inr (str_of ''ali'')"
  by (simp add: username_clean_def AuthorNickValidator_def MaxLengthValidator_def
      nick_regex_search_def in_class_def at_dollar_def str_of_def)

theorem handle_email_unique_witness:
  "Author_save db1 None (new_author (str_of ''ali'') (str_of ''other@example.com'')) = (db1, Inl IntegrityError)
   \<and> (''username'', V_unique) \<in> set (Author_full_clean (\<lambda>e. True) (\<lambda>e. e) db1
         (new_author (str_of ''ali'') (str_of ''other@example.com'')))
   \<and> Author_save db1 None (new_author (str_of ''can'') (str_of ''ali@example.com'')) = (db1, Inl IntegrityError)
   \<and> (''email'', V_unique) \<in> set (Author_full_clean (\<lambda>e. True) (\<lambda>e. e) db1
         (new_author (str_of ''can'') (str_of ''ali@example.com'')))
   \<and> Author_save db1 (Some 2) (new_author (str_of ''ali'') (str_of ''veli@example.com'')) = (db1, Inl IntegrityError)"
proof -
  have f: "username (new_author u e) = u" "email (new_author u e) = e" for u e
    by (simp_all add: new_author_def)
  have e: "email_clean (\<lambda>e. True) (str_of ''ali@example.com'') = Inr (str_of ''ali@example.com'')"
    by (simp add: email_clean_def MaxLengthValidator_def str_of_def)
  have n: "Some (1::nat) \<noteq> None" "Some (1::nat) \<noteq> Some 2" by simp_all
  show ?thesis
    using handle_email_unique[OF db1_ali n(1), where a = "new_author (str_of ''ali'') (str_of ''other@example.com'')"
        and ne = "\<lambda>e. e" and ve = "\<lambda>e. True"]
      handle_email_unique[OF db1_ali n(1), where a = "new_author (str_of ''can'') (str_of ''ali@example.com'')"
        and ne = "\<lambda>e. e" and ve = "\<lambda>e. True"]
      handle_email_unique[OF db1_ali n(2), where a = "new_author (str_of ''ali'') (str_of ''veli@example.com'')"
        and ne = "\<lambda>e. e" and ve = "\<lambda>e. True"]
      ali_clean e
    by (simp add: f)
qed

text \<open>
  Claim C6 as stated fails where it names a distinct error kind. The handle \<open>Ali\<close> is
  stored (\<open>save\<close> validates nothing) and a second account asks for it: \<open>full_clean\<close>
  reports the format error alone, not the \<open>unique\<close> one, and \<open>save\<close> raises the
  IntegrityError that a pinned entry which does not exist raises as well.
\<close>

theorem handle_email_unique_counterexample:
  "(1, new_author (str_of ''Ali'') (str_of ''ali@example.com'')) \<in> set (authors db_Ali)
   \<and> Author_full_clean (\<lambda>e. True) (\<lambda>e. e) db_Ali (new_author (str_of ''Ali'') (str_of ''other@example.com''))
       = [(''username'', V_invalid)]
   \<and> Author_save db_Ali None (new_author (str_of ''Ali'') (str_of ''other@example.com''))
       = (db_Ali, Inl IntegrityError)
   \<and> Author_save db_Ali None ((new_author (str_of ''can'') (str_of ''can@example.com''))\<lparr>pinned_entry := Some 99\<rparr>)
       = (db_Ali, Inl IntegrityError)"
proof -
  have u: "username_clean (str_of ''Ali'') = Inl [V_invalid]"
    by (simp add: username_clean_def AuthorNickValidator_def MaxLengthValidator_def
        nick_regex_search_def in_class_def at_dollar_def str_of_def)
  have e: "email_clean (\<lambda>e. True) (str_of ''other@example.com'') = Inr (str_of ''other@example.com'')"
    by (simp add: email_clean_def MaxLengthValidator_def str_of_def)
  have d: "str_of ''ali@example.com'' \<noteq> str_of ''other@example.com''"
    by (simp add: str_of_def)
  have f: "Author_full_clean (\<lambda>e. True) (\<lambda>e. e) db_Ali (new_author (str_of ''Ali'') (str_of ''other@example.com''))
       = [(''username'', V_invalid)]"
    using d by (simp add: Author_full_clean_def field_errors_def u e db_Ali_def empty_db_def new_author_def)
  have s1: "Author_save db_Ali None (new_author (str_of ''Ali'') (str_of ''other@example.com''))
       = (db_Ali, Inl IntegrityError)"
    by (simp add: Author_save_def unique_violation_def db_Ali_def empty_db_def new_author_def)
  have s2: "Author_save db_Ali None ((new_author (str_of ''can'') (str_of ''can@example.com''))\<lparr>pinned_entry := Some 99\<rparr>)
       = (db_Ali, Inl IntegrityError)"
    by (simp add: Author_save_def fk_violation_def has_pk_def db_Ali_def empty_db_def new_author_def)
  have m: "(1, new_author (str_of ''Ali'') (str_of ''ali@example.com'')) \<in> set (authors db_Ali)"
    by (simp add: db_Ali_def empty_db_def)
  from m f s1 s2 show ?thesis by simp
qed

subsection \<open>Author.save\<close>

lemma set_table_update_subset:
  "set (table_update tbl q v) \<subseteq> {(k, r). (k, r) \<in> set tbl \<and> k \<noteq> q} \<union> {(q, v)}"
  by (auto simp: table_update_def split: if_splits)

lemma save_table_rows:
  assumes "save_table tbl key v = (tbl', p)" "(k, r) \<in> set tbl'"
  shows "(k = p \<and> r = v) \<or> ((k, r) \<in> set tbl \<and> k \<noteq> p)"
proof (cases "\<exists>q. key = Some q \<and> has_pk tbl q")
  case True
  then obtain q where q: "key = Some q" "has_pk tbl q" by blast
  with assms(1) have "tbl' = table_update tbl q v" "p = q" by (auto simp: save_table_def)
  with assms(2) set_table_update_subset[of tbl q v] show ?thesis by auto
next
  case False
  with assms(1) have t: "tbl' = tbl @ [(p, v)]" "\<not> has_pk tbl p"
    using new_pk_fresh[of tbl] by (auto simp: save_table_def split: option.splits if_splits)
  with assms(2) show ?thesis by (auto simp: has_pk_def image_iff)
qed

lemma save_table_key:
  "save_table tbl key v = (tbl', p) \<Longrightarrow> key = None \<or> key = Some p"
  by (auto simp: save_table_def split: option.splits if_splits)

lemma save_table_has: "save_table tbl key v = (tbl', p) \<Longrightarrow> (p, v) \<in> set tbl'"
proof (cases "\<exists>q. key = Some q \<and> has_pk tbl q")
  case True
  assume s: "save_table tbl key v = (tbl', p)"
  from True obtain q where q: "key = Some q" "has_pk tbl q" by blast
  with s have t: "tbl' = table_update tbl q v" "p = q" by (auto simp: save_table_def)
  from q(2) obtain b where "(q, b) \<in> set tbl" by (auto simp: has_pk_def)
  then have "(q, v) \<in> set (table_update tbl q v)" by (force simp: table_update_def)
  with t show ?thesis by simp
next
  case False
  assume "save_table tbl key v = (tbl', p)"
  with False show ?thesis by (auto simp: save_table_def split: option.splits if_splits)
qed

lemma save_table_None_fresh:
  "save_table tbl None v = (tbl', p) \<Longrightarrow> \<not> has_pk tbl p \<and> tbl' = tbl @ [(p, v)]"
  using new_pk_fresh[of tbl] by (auto simp: save_table_def)

lemma Author_save_unfold:
  "Author_save s key a =
     (if unique_violation (authors s) key a \<or> fk_violation s a then (s, Inl IntegrityError)
      else if key = None
      then (s\<lparr>authors := fst (save_table (authors s) key a),
               following_categories := m2m_add (following_categories s)
                 (snd (save_table (authors s) key a)) (categories s)\<rparr>,
            Inr (snd (save_table (authors s) key a)))
      else (s\<lparr>authors := fst (save_table (authors s) key a)\<rparr>, Inr (snd (save_table (authors s) key a))))"
  by (simp add: Author_save_def Let_def split: prod.splits)

subsection \<open>The pinned entry is one-to-one\<close>

lemma pins_uniqueD:
  assumes "pins_unique s" "(k, r) \<in> set (authors s)" "(k', r') \<in> set (authors s)"
    "pinned_entry r \<noteq> None" "pinned_entry r = pinned_entry r'"
  shows "k = k'"
proof -
  from assms(1,2) have "\<forall>(k', r') \<in> set (authors s).
      pinned_entry r \<noteq> None \<and> pinned_entry r = pinned_entry r' \<longrightarrow> k = k'"
    unfolding pins_unique_def by fast
  with assms(3) have "pinned_entry r \<noteq> None \<and> pinned_entry r = pinned_entry r' \<longrightarrow> k = k'" by fast
  with assms(4,5) show ?thesis by simp
qed

lemma pins_uniqueI:
  assumes "\<And>k r k' r'. (k, r) \<in> set (authors s) \<Longrightarrow> (k', r') \<in> set (authors s) \<Longrightarrow>
     pinned_entry r \<noteq> None \<Longrightarrow> pinned_entry r = pinned_entry r' \<Longrightarrow> k = k'"
  shows "pins_unique s"
  unfolding pins_unique_def using assms by fast

lemma pins_unique_Author_save:
  assumes "pins_unique s"
  shows "pins_unique (fst (Author_save s key a))"
proof (cases "unique_violation (authors s) key a \<or> fk_violation s a")
  case True
  with assms show ?thesis by (simp add: Author_save_unfold)
next
  case False
  obtain tbl p where t: "save_table (authors s) key a = (tbl, p)" by (cases "save_table (authors s) key a")
  have au: "authors (fst (Author_save s key a)) = tbl" using False t by (auto simp: Author_save_unfold)
  have nov: "(k, r) \<in> set (authors s) \<Longrightarrow> k \<noteq> p \<Longrightarrow> pinned_entry a \<noteq> None \<Longrightarrow> pinned_entry r \<noteq> pinned_entry a" for k r
    using False save_table_key[OF t] by (auto simp: unique_violation_def)
  have "k = k'" if h: "(k, r) \<in> set tbl" "(k', r') \<in> set tbl" "pinned_entry r \<noteq> None" "pinned_entry r = pinned_entry r'" for k r k' r'
  proof -
    from save_table_rows[OF t h(1)] save_table_rows[OF t h(2)]
    consider "k = p" "k' = p" | "k = p" "r = a" "(k', r') \<in> set (authors s)" "k' \<noteq> p"
      | "k' = p" "r' = a" "(k, r) \<in> set (authors s)" "k \<noteq> p"
      | "(k, r) \<in> set (authors s)" "(k', r') \<in> set (authors s)" by blast
    then show ?thesis
    proof cases
      case 1 then show ?thesis by simp
    next
      case 2 with nov[of k' r'] h(3,4) show ?thesis by auto
    next
      case 3 with nov[of k r] h(3,4) show ?thesis by auto
    next
      case 4 with pins_uniqueD[OF assms _ _ h(3,4)] show ?thesis by simp
    qed
  qed
  with au show ?thesis by (intro pins_uniqueI) simp
qed

text \<open>
  Claim C9. Two distinct accounts never pin the same entry: every save of an account
  keeps the pins one-to-one, and a save that would pin an entry which another account
  pins raises IntegrityError and changes nothing.
\<close>

theorem pinned_entry_one_to_one:
  assumes "pins_unique s"
  shows "pins_unique (fst (Author_save s key a))
    \<and> ((k, r) \<in> set (authors s) \<and> Some k \<noteq> key \<and> pinned_entry r = Some e \<and> pinned_entry a = Some e \<longrightarrow>
         Author_save s key a = (s, Inl IntegrityError))"
proof (intro conjI impI)
  show "pins_unique (fst (Author_save s key a))" by (rule pins_unique_Author_save[OF assms])
next
  assume "(k, r) \<in> set (authors s) \<and> Some k \<noteq> key \<and> pinned_entry r = Some e \<and> pinned_entry a = Some e"
  then have "unique_violation (authors s) key a" by (auto simp: unique_violation_def)
  then show "Author_save s key a = (s, Inl IntegrityError)" by (simp add: Author_save_unfold)
qed

lemma ali_veli_fields:
  "username ali \<noteq> username veli" "email ali \<noteq> email veli"
  "pinned_entry ali = None" "pinned_entry veli = None"
  by (simp_all add: ali_def veli_def new_author_def str_of_def)

lemma pins_unique_db3: "pins_unique db3"
  by (simp add: pins_unique_def db3_def ali_veli_fields)

lemma db3_pin_taken:
  "Author_save db3 (Some 2) (veli\<lparr>pinned_entry := Some 2\<rparr>) = (db3, Inl IntegrityError)"
  by (simp add: Author_save_unfold unique_violation_def db3_def)

lemma db3_pin_free:
  "Author_save db3 (Some 2) (veli\<lparr>pinned_entry := Some 4\<rparr>)
     = (db3\<lparr>authors := [(1, ali\<lparr>pinned_entry := Some 2\<rparr>), (2, veli\<lparr>pinned_entry := Some 4\<rparr>)]\<rparr>, Inr 2)"
  by (simp add: Author_save_unfold unique_violation_def fk_violation_def save_table_def has_pk_def
      table_update_def db3_def db2_def ali_veli_fields)

theorem pinned_entry_one_to_one_witness:
  "pins_unique db3
   \<and> Author_save db3 (Some 2) (veli\<lparr>pinned_entry := Some 2\<rparr>) = (db3, Inl IntegrityError)
   \<and> pins_unique (db3\<lparr>authors := [(1, ali\<lparr>pinned_entry := Some 2\<rparr>), (2, veli\<lparr>pinned_entry := Some 4\<rparr>)]\<rparr>)"
proof -
  have m: "(1, ali\<lparr>pinned_entry := Some 2\<rparr>) \<in> set (authors db3)" by (simp add: db3_def)
  show ?thesis
    using pinned_entry_one_to_one[OF pins_unique_db3, of "Some 2" "veli\<lparr>pinned_entry := Some 2\<rparr>" 1
        "ali\<lparr>pinned_entry := Some 2\<rparr>" 2]
      pinned_entry_one_to_one[OF pins_unique_db3, of "Some 2" "veli\<lparr>pinned_entry := Some 4\<rparr>" 1
        "ali\<lparr>pinned_entry := Some 2\<rparr>" 2]
      m pins_unique_db3 db3_pin_free
    by simp
qed

subsection \<open>The category bootstrap\<close>

lemma set_m2m_add: "set (m2m_add rel a cs) = set rel \<union> Pair a ` set cs"
  by (auto simp: m2m_add_def)

lemma following_categories_of_m2m_add:
  "following_categories_of (s\<lparr>following_categories := m2m_add (following_categories s) p cs\<rparr>) q
     = following_categories_of s q \<union> (if q = p then set cs else {})"
  by (auto simp: following_categories_of_def set_m2m_add)

lemma following_categories_of_authors_update [simp]:
  "following_categories_of (s\<lparr>authors := t\<rparr>) q = following_categories_of s q"
  by (simp add: following_categories_of_def)

lemma Author_save_resave:
  "following_categories (fst (Author_save s (Some q) a)) = following_categories s"
  by (simp add: Author_save_unfold)

lemma Author_save_create:
  assumes "Author_save s None a = (s', Inr p)"
  shows "\<not> has_pk (authors s) p" "has_pk (authors s') p"
    "s' = s\<lparr>authors := authors s @ [(p, a)],
              following_categories := m2m_add (following_categories s) p (categories s)\<rparr>"
proof -
  from assms have nv: "\<not> (unique_violation (authors s) None a \<or> fk_violation s a)"
    by (auto simp: Author_save_unfold split: if_splits)
  obtain tbl p' where t: "save_table (authors s) None a = (tbl, p')" by (cases "save_table (authors s) None a")
  from save_table_None_fresh[OF t] have f: "\<not> has_pk (authors s) p'" "tbl = authors s @ [(p', a)]" by auto
  from assms nv t have "p' = p" "s' = s\<lparr>authors := tbl,
      following_categories := m2m_add (following_categories s) p' (categories s)\<rparr>"
    by (auto simp: Author_save_unfold)
  with f show "\<not> has_pk (authors s) p" "has_pk (authors s') p"
    "s' = s\<lparr>authors := authors s @ [(p, a)],
              following_categories := m2m_add (following_categories s) p (categories s)\<rparr>"
    by (auto simp: has_pk_def)
qed

text \<open>
  Claim C3, as amended. \<open>save\<close> recognises a new account by its missing primary key.
  A successful save of an instance without a primary key inserts the account under a key
  not in use and links it to every category that exists at that moment, and to nothing
  else; the links of the other accounts stay as they were. A category created afterwards
  is not added, and saving an account that has a primary key changes no link.
\<close>

theorem category_bootstrap:
  assumes "following_categories_fk s" and "Author_save s None a = (s', Inr p)"
  shows "\<not> has_pk (authors s) p \<and> has_pk (authors s') p
    \<and> following_categories_of s' p = set (categories s)
    \<and> (\<forall>q. q \<noteq> p \<longrightarrow> following_categories_of s' q = following_categories_of s q)
    \<and> following_categories_of (fst (Author_save (s'\<lparr>categories := c # categories s'\<rparr>) (Some p) a')) p
        = set (categories s)
    \<and> following_categories (fst (Author_save s2 (Some q2) a')) = following_categories s2"
proof -
  note c = Author_save_create[OF assms(2)]
  have none: "following_categories_of s p = {}"
    using assms(1) c(1) by (auto simp: following_categories_fk_def following_categories_of_def)
  have fc: "following_categories_of s' q = following_categories_of s q \<union> (if q = p then set (categories s) else {})" for q
    by (subst c(3)) (auto simp: following_categories_of_def set_m2m_add)
  have re: "following_categories_of (fst (Author_save (s'\<lparr>categories := c # categories s'\<rparr>) (Some p) a')) p
      = following_categories_of s' p"
    using Author_save_resave[of "s'\<lparr>categories := c # categories s'\<rparr>" p a']
    by (simp add: following_categories_of_def)
  from c(1,2) none fc re Author_save_resave[of s2 q2 a'] show ?thesis by simp
qed

lemma can_fields:
  "username ali \<noteq> username can" "email ali \<noteq> email can"
  "username veli \<noteq> username can" "email veli \<noteq> email can" "pinned_entry can = None"
  by (simp_all add: ali_def veli_def can_def new_author_def str_of_def)

lemma db4_fk: "following_categories_fk db4"
  by (simp add: following_categories_fk_def db4_def empty_db_def has_pk_def)

lemma db4_create: "Author_save db4 None can = (db4_can, Inr 3)"
  by (simp add: Author_save_unfold unique_violation_def fk_violation_def save_table_def new_pk_def
      m2m_add_def db4_def db4_can_def empty_db_def can_fields)

theorem category_bootstrap_witness:
  "Author_save db4 None can = (db4_can, Inr 3)
   \<and> following_categories_of db4_can 3 = {10, 20}
   \<and> following_categories_of db4_can 1 = following_categories_of db4 1
   \<and> following_categories_of (fst (Author_save (db4_can\<lparr>categories := 30 # categories db4_can\<rparr>) (Some 3) can)) 3
       = {10, 20}"
proof -
  have c: "set (categories db4) = {10, 20}" by (auto simp: db4_def empty_db_def)
  show ?thesis
    using category_bootstrap[OF db4_fk db4_create, of 30 can] db4_create c
    by simp
qed

text \<open>
  Claim C3 as stated fails for an account that is inserted under a primary key given by
  the caller: the row is new, \<open>created\<close> is false, and no category is linked.
\<close>

theorem category_bootstrap_counterexample:
  "\<not> has_pk (authors db4) 7
   \<and> categories db4 = [10, 20]
   \<and> Author_save db4 (Some 7) can = (db4_key, Inr 7)
   \<and> has_pk (authors db4_key) 7
   \<and> following_categories_of db4_key 7 = {}"
  by (simp add: Author_save_unfold unique_violation_def fk_violation_def save_table_def has_pk_def
      following_categories_of_def db4_def db4_key_def empty_db_def can_fields)

subsection \<open>Deletion\<close>

lemma delete_entries_frame:
  "mementos (delete_entries s es) = mementos s"
  "userverifications (delete_entries s es) = userverifications s"
  "map fst (authors (delete_entries s es)) = map fst (authors s)"
  by (simp_all add: delete_entries_def case_prod_beta comp_def)

lemma Author_delete_tables:
  "mementos (Author_delete ce s b) = filter (\<lambda>(k, r). holder r \<noteq> b \<and> patient r \<noteq> b) (mementos s)"
  "userverifications (Author_delete ce s b) = filter (\<lambda>(k, r). uv_author r \<noteq> b) (userverifications s)"
  by (simp_all add: Author_delete_def Let_def delete_entries_frame)

lemma Author_delete_authors:
  "map fst (authors (Author_delete ce s b)) = filter (\<lambda>k. k \<noteq> b) (map fst (authors s))"
proof -
  have f: "map fst (filter (\<lambda>(k, r). k \<noteq> b) t) = filter (\<lambda>k. k \<noteq> b) (map fst t)" for t :: "(pk \<times> author) list"
    by (induction t) auto
  show ?thesis
    by (simp add: Author_delete_def Let_def f delete_entries_frame)
qed

lemma Entry_delete_authors:
  "authors (Entry_delete s e) =
     map (\<lambda>(k, r). (k, if pinned_entry r = Some e then r\<lparr>pinned_entry := None\<rparr> else r)) (authors s)"
  by (simp add: Entry_delete_def delete_entries_def)

lemma Entry_delete_unpinned:
  assumes "(k, r) \<in> set (authors (Entry_delete s e))"
  shows "pinned_entry r \<noteq> Some e"
proof -
  from assms obtain r0 where "(k, r0) \<in> set (authors s)"
    "r = (if pinned_entry r0 = Some e then r0\<lparr>pinned_entry := None\<rparr> else r0)"
    unfolding Entry_delete_authors by auto
  then show ?thesis by (cases "pinned_entry r0 = Some e") simp_all
qed

lemma Entry_delete_keeps:
  assumes "(k, r) \<in> set (authors s)"
  shows "(k, if pinned_entry r = Some e then r\<lparr>pinned_entry := None\<rparr> else r) \<in> set (authors (Entry_delete s e))"
proof -
  let ?f = "\<lambda>(k, r). (k, if pinned_entry r = Some e then r\<lparr>pinned_entry := None\<rparr> else r)"
  have "?f (k, r) \<in> ?f ` set (authors s)" using assms by (rule imageI)
  then show ?thesis unfolding Entry_delete_authors by simp
qed

text \<open>
  Claim C8. Deleting an account removes exactly the Memento rows in which it is holder or
  patient and the verification-token rows it owns, so none of either is left, and the
  account is gone; this holds whether or not the account's entries go with it. Deleting
  an entry deletes no account: each account that pinned it stays, with its
  \<open>pinned_entry\<close> set to null, and no account pins the deleted entry afterwards.
\<close>

theorem delete_cascade:
  "mementos (Author_delete ce s b) = filter (\<lambda>(k, r). holder r \<noteq> b \<and> patient r \<noteq> b) (mementos s)
   \<and> userverifications (Author_delete ce s b) = filter (\<lambda>(k, r). uv_author r \<noteq> b) (userverifications s)
   \<and> (\<forall>(k, r) \<in> set (mementos (Author_delete ce s b)). holder r \<noteq> b \<and> patient r \<noteq> b)
   \<and> (\<forall>(k, r) \<in> set (userverifications (Author_delete ce s b)). uv_author r \<noteq> b)
   \<and> \<not> has_pk (authors (Author_delete ce s b)) b
   \<and> map fst (authors (Entry_delete s e)) = map fst (authors s)
   \<and> \<not> has_pk (entries (Entry_delete s e)) e
   \<and> (\<forall>(k, r) \<in> set (authors (Entry_delete s e)). pinned_entry r \<noteq> Some e)
   \<and> (\<forall>(k, r) \<in> set (authors s).
        (k, if pinned_entry r = Some e then r\<lparr>pinned_entry := None\<rparr> else r) \<in> set (authors (Entry_delete s e)))"
proof -
  have m: "mementos (Author_delete ce s b) = filter (\<lambda>(k, r). holder r \<noteq> b \<and> patient r \<noteq> b) (mementos s)"
    by (rule Author_delete_tables)
  have u: "userverifications (Author_delete ce s b) = filter (\<lambda>(k, r). uv_author r \<noteq> b) (userverifications s)"
    by (rule Author_delete_tables)
  have m': "\<forall>(k, r) \<in> set (mementos (Author_delete ce s b)). holder r \<noteq> b \<and> patient r \<noteq> b"
    unfolding m by auto
  have u': "\<forall>(k, r) \<in> set (userverifications (Author_delete ce s b)). uv_author r \<noteq> b"
    unfolding u by auto
  have "b \<notin> set (map fst (authors (Author_delete ce s b)))"
    unfolding Author_delete_authors by simp
  then have a: "\<not> has_pk (authors (Author_delete ce s b)) b" by (simp add: has_pk_def)
  have k: "map fst (authors (Entry_delete s e)) = map fst (authors s)"
    by (simp add: Entry_delete_def delete_entries_frame)
  have "e \<notin> fst ` set (filter (\<lambda>(k, x). k \<notin> set [e]) (entries s))" by auto
  then have g: "\<not> has_pk (entries (Entry_delete s e)) e"
    by (simp add: Entry_delete_def delete_entries_def has_pk_def)
  have p: "\<forall>(k, r) \<in> set (authors (Entry_delete s e)). pinned_entry r \<noteq> Some e"
    using Entry_delete_unpinned[of _ _ s e] by blast
  have q: "\<forall>(k, r) \<in> set (authors s).
        (k, if pinned_entry r = Some e then r\<lparr>pinned_entry := None\<rparr> else r) \<in> set (authors (Entry_delete s e))"
    using Entry_delete_keeps[of _ _ s e] by blast
  from m u m' u' a k g p q show ?thesis by (intro conjI)
qed

lemma db5_delete_author:
  "mementos (Author_delete True db5 2) = [(3, memo ''z'' 1 1)]"
  "userverifications (Author_delete True db5 2) = [(2, tok 1 ''u'' 0)]"
  "map fst (authors (Author_delete True db5 2)) = [1]"
  by (simp_all add: Author_delete_tables Author_delete_authors db5_def db3_def memo_def tok_def)

lemma db5_delete_entry:
  "authors (Entry_delete db5 2) = [(1, ali\<lparr>pinned_entry := None\<rparr>), (2, veli)]"
  by (simp add: Entry_delete_authors db5_def db3_def ali_veli_fields)

theorem delete_cascade_witness:
  "mementos (Author_delete True db5 2) = [(3, memo ''z'' 1 1)]
   \<and> userverifications (Author_delete True db5 2) = [(2, tok 1 ''u'' 0)]
   \<and> \<not> has_pk (authors (Author_delete True db5 2)) 2
   \<and> authors (Entry_delete db5 2) = [(1, ali\<lparr>pinned_entry := None\<rparr>), (2, veli)]
   \<and> map fst (authors (Entry_delete db5 2)) = map fst (authors db5)
   \<and> \<not> has_pk (entries (Entry_delete db5 2)) 2"
  using delete_cascade[of True db5 2 2] db5_delete_author db5_delete_entry
  by simp

subsection \<open>One Memento per pair\<close>

lemma has_pkI: "(k, r) \<in> set tbl \<Longrightarrow> has_pk tbl k"
  by (force simp: has_pk_def)

lemma table_update_absent: "\<not> has_pk tbl q \<Longrightarrow> table_update tbl q v = tbl"
  by (induction tbl) (auto simp: table_update_def has_pk_def)

lemma filter_table_update_own:
  assumes "\<forall>(k, r) \<in> set tbl. k \<noteq> q \<longrightarrow> \<not> P r" "P v" "has_pk tbl q" "distinct (map fst tbl)"
  shows "filter (\<lambda>(k, r). P r) (table_update tbl q v) = [(q, v)]"
  using assms
proof (induction tbl)
  case Nil then show ?case by (simp add: has_pk_def)
next
  case (Cons x tbl)
  obtain k r where x: "x = (k, r)" by (cases x)
  show ?case
  proof (cases "k = q")
    case True
    with Cons.prems x have nq: "\<not> has_pk tbl q" by (auto simp: has_pk_def)
    then have "\<forall>(k, r) \<in> set tbl. k \<noteq> q" using has_pkI[of _ _ tbl] by fast
    with Cons.prems(1) have "filter (\<lambda>(k, r). P r) tbl = []"
      by (auto simp: filter_empty_conv)
    with table_update_absent[OF nq] True x Cons.prems(2) show ?thesis
      by (simp add: table_update_Cons)
  next
    case False
    with Cons.prems x have "\<not> P r" "has_pk tbl q" by (auto simp: has_pk_def)
    with Cons False x show ?thesis by (simp add: table_update_Cons)
  qed
qed

lemma distinct_field_table_update_own:
  assumes "distinct (map (\<lambda>(k, r). f r) tbl)" "\<forall>(k, r) \<in> set tbl. k \<noteq> q \<longrightarrow> f r \<noteq> f v"
    and "distinct (map fst tbl)"
  shows "distinct (map (\<lambda>(k, r). f r) (table_update tbl q v))"
  using assms
proof (induction tbl)
  case Nil then show ?case by (simp add: table_update_def)
next
  case (Cons x tbl)
  obtain k r where x: "x = (k, r)" by (cases x)
  have ih: "distinct (map (\<lambda>(k, r). f r) (table_update tbl q v))"
    using Cons by simp
  show ?case
  proof (cases "k = q")
    case True
    with Cons.prems x have nq: "\<not> has_pk tbl q" by (auto simp: has_pk_def)
    then have "\<forall>(k, r) \<in> set tbl. k \<noteq> q" using has_pkI[of _ _ tbl] by fast
    with Cons.prems(2) have "f v \<notin> (\<lambda>(k, r). f r) ` set tbl" by auto
    with table_update_absent[OF nq] True x Cons.prems(1) show ?thesis
      by (simp add: table_update_Cons)
  next
    case False
    have "set (table_update tbl q v) \<subseteq> set tbl \<union> {(q, v)}"
      by (auto simp: table_update_def split: if_splits)
    then have "(\<lambda>(k, r). f r) ` set (table_update tbl q v) \<subseteq> (\<lambda>(k, r). f r) ` set tbl \<union> {f v}"
      by auto
    moreover have "f r \<notin> (\<lambda>(k, r). f r) ` set tbl" "f r \<noteq> f v"
      using Cons.prems(1,2) x False by auto
    ultimately have "f r \<notin> (\<lambda>(k, r). f r) ` set (table_update tbl q v)" by blast
    with ih False x show ?thesis by (simp add: table_update_Cons)
  qed
qed

lemma distinct_field_save_table_own:
  assumes "distinct (map (\<lambda>(k, r). f r) tbl)" "\<forall>(k, r) \<in> set tbl. Some k \<noteq> key \<longrightarrow> f r \<noteq> f v"
    and "distinct (map fst tbl)" "save_table tbl key v = (tbl', p)"
  shows "distinct (map (\<lambda>(k, r). f r) tbl')"
proof (cases "\<exists>q. key = Some q \<and> has_pk tbl q")
  case True
  then obtain q where q: "key = Some q" "has_pk tbl q" by blast
  with assms(4) have t: "tbl' = table_update tbl q v" by (auto simp: save_table_def)
  have "\<forall>(k, r) \<in> set tbl. k \<noteq> q \<longrightarrow> f r \<noteq> f v" using assms(2) q(1) by auto
  from distinct_field_table_update_own[OF assms(1) this assms(3)] t show ?thesis by simp
next
  case False
  with assms(4) have t: "tbl' = tbl @ [(p, v)]" "\<not> has_pk tbl p"
    using new_pk_fresh[of tbl] by (auto simp: save_table_def split: option.splits if_splits)
  have "key = None \<or> key = Some p" by (rule save_table_key[OF assms(4)])
  with t(2) have "\<forall>(k, r) \<in> set tbl. Some k \<noteq> key" using has_pkI[of _ _ tbl] by fast
  with assms(2) have "f v \<notin> (\<lambda>(k, r). f r) ` set tbl" by auto
  with t(1) assms(1) show ?thesis by simp
qed

lemma Memento_save_unfold:
  "Memento_save s key m =
     (if \<not> unique_memento (mementos s) key m
         \<or> \<not> has_pk (authors s) (holder m) \<or> \<not> has_pk (authors s) (patient m)
      then (s, Inl IntegrityError)
      else (s\<lparr>mementos := fst (save_table (mementos s) key m)\<rparr>, Inr (snd (save_table (mementos s) key m))))"
  by (simp add: Memento_save_def split: prod.splits)

lemma Memento_save_inv:
  assumes "distinct (map fst (mementos s))" "memento_pairs_unique s"
  shows "distinct (map fst (mementos (fst (Memento_save s key m))))
       \<and> memento_pairs_unique (fst (Memento_save s key m))"
proof (cases "\<not> unique_memento (mementos s) key m
         \<or> \<not> has_pk (authors s) (holder m) \<or> \<not> has_pk (authors s) (patient m)")
  case True
  with assms show ?thesis by (simp add: Memento_save_unfold)
next
  case False
  obtain tbl p where t: "save_table (mementos s) key m = (tbl, p)" by (cases "save_table (mementos s) key m")
  with False have s': "mementos (fst (Memento_save s key m)) = tbl" by (auto simp: Memento_save_unfold)
  from False have u: "\<forall>(k, r) \<in> set (mementos s). Some k \<noteq> key \<longrightarrow>
      (holder r, patient r) \<noteq> (holder m, patient m)"
    by (auto simp: unique_memento_def)
  have "distinct (map (\<lambda>(k, r). (holder r, patient r)) tbl)"
    using distinct_field_save_table_own[where f = "\<lambda>r. (holder r, patient r)", OF _ u assms(1) t] assms(2)
    by (simp add: memento_pairs_unique_def)
  with distinct_save_table[OF assms(1) t] s' show ?thesis by (simp add: memento_pairs_unique_def)
qed

lemma pair_rows_same:
  assumes "memento_pairs_unique s" "(k, r) \<in> set (mementos s)" "(k', r') \<in> set (mementos s)"
    "holder r' = holder r" "patient r' = patient r"
  shows "k' = k"
proof -
  have "inj_on (\<lambda>(k, r). (holder r, patient r)) (set (mementos s))"
    using assms(1) by (simp add: memento_pairs_unique_def distinct_map)
  from inj_onD[OF this _ assms(3,2)] assms(4,5) show ?thesis by simp
qed

lemma upsert_memento_ok:
  assumes "distinct (map fst (mementos s))" "memento_pairs_unique s"
    and "has_pk (authors s) h" "has_pk (authors s) p"
  shows "\<exists>s1 k1. upsert_memento s h p b = (s1, Inr k1)
      \<and> mementos_of s1 h p = [(k1, \<lparr>body = b, holder = h, patient = p\<rparr>)]
      \<and> distinct (map fst (mementos s1)) \<and> memento_pairs_unique s1 \<and> authors s1 = authors s"
proof (cases "mementos_of s h p")
  case Nil
  let ?m = "\<lparr>body = b, holder = h, patient = p\<rparr>"
  have none: "\<forall>(k, r) \<in> set (mementos s). \<not> (holder r = h \<and> patient r = p)"
    using Nil by (auto simp: mementos_of_def filter_empty_conv)
  then have u: "unique_memento (mementos s) None ?m" by (auto simp: unique_memento_def)
  obtain tbl k1 where t: "save_table (mementos s) None ?m = (tbl, k1)"
    by (cases "save_table (mementos s) None ?m")
  have sv: "Memento_save s None ?m = (s\<lparr>mementos := tbl\<rparr>, Inr k1)"
    using u assms(3,4) t by (simp add: Memento_save_unfold)
  have up: "upsert_memento s h p b = (s\<lparr>mementos := tbl\<rparr>, Inr k1)"
    using Nil sv by (simp add: upsert_memento_def)
  have "filter (\<lambda>(k, r). holder r = h \<and> patient r = p) tbl = [(k1, ?m)]"
    by (rule filter_save_table_other[where P = "\<lambda>r. holder r = h \<and> patient r = p", OF _ _ assms(1) t])
       (use none in auto)
  then have one: "mementos_of (s\<lparr>mementos := tbl\<rparr>) h p = [(k1, ?m)]" by (simp add: mementos_of_def)
  from Memento_save_inv[OF assms(1,2), of None ?m] sv
  have "distinct (map fst (mementos (s\<lparr>mementos := tbl\<rparr>)))" "memento_pairs_unique (s\<lparr>mementos := tbl\<rparr>)"
    by simp_all
  with up one show ?thesis by simp
next
  case (Cons x rest)
  obtain k r where x: "x = (k, r)" by (cases x)
  let ?m = "r\<lparr>body := b\<rparr>"
  have "(k, r) \<in> set (mementos_of s h p)" using Cons x by simp
  then have kr: "(k, r) \<in> set (mementos s)" "holder r = h" "patient r = p"
    by (auto simp: mementos_of_def)
  have meq: "?m = \<lparr>body = b, holder = h, patient = p\<rparr>" using kr(2,3) by (cases r) simp
  have others: "\<forall>(k', r') \<in> set (mementos s). k' \<noteq> k \<longrightarrow> \<not> (holder r' = h \<and> patient r' = p)"
    using pair_rows_same[OF assms(2) kr(1)] kr(2,3) by fast
  then have u: "unique_memento (mementos s) (Some k) ?m"
    using kr(2,3) by (auto simp: unique_memento_def)
  have hk: "has_pk (mementos s) k" by (rule has_pkI[OF kr(1)])
  then have t: "save_table (mementos s) (Some k) ?m = (table_update (mementos s) k ?m, k)"
    by (simp add: save_table_def)
  have sv: "Memento_save s (Some k) ?m = (s\<lparr>mementos := table_update (mementos s) k ?m\<rparr>, Inr k)"
    using u assms(3,4) kr(2,3) t by (simp add: Memento_save_unfold)
  have up: "upsert_memento s h p b = (s\<lparr>mementos := table_update (mementos s) k ?m\<rparr>, Inr k)"
    using Cons x sv by (simp add: upsert_memento_def)
  have "filter (\<lambda>(k, r). holder r = h \<and> patient r = p) (table_update (mementos s) k ?m) = [(k, ?m)]"
    by (rule filter_table_update_own[where P = "\<lambda>r. holder r = h \<and> patient r = p", OF others _ hk assms(1)])
       (use kr in simp)
  then have one: "mementos_of (s\<lparr>mementos := table_update (mementos s) k ?m\<rparr>) h p
      = [(k, \<lparr>body = b, holder = h, patient = p\<rparr>)]"
    using meq by (simp add: mementos_of_def)
  from Memento_save_inv[OF assms(1,2), of "Some k" ?m] sv
  have "distinct (map fst (mementos (s\<lparr>mementos := table_update (mementos s) k ?m\<rparr>)))"
    "memento_pairs_unique (s\<lparr>mementos := table_update (mementos s) k ?m\<rparr>)"
    by simp_all
  with up one show ?thesis by simp
qed

text \<open>
  Claim C5. From a table with at most one Memento row per (holder, patient) pair, every
  save leaves at most one row per pair, and inserting a second row for a pair that has
  one violates the constraint: the save raises IntegrityError and changes nothing.
  Writing a body and then another body for the same pair of existing accounts through
  the upsert contract succeeds both times and leaves exactly one row for the pair, with
  the second body.
\<close>

theorem memento_pair_unique:
  assumes "distinct (map fst (mementos s))" and "memento_pairs_unique s"
  shows "memento_pairs_unique (fst (Memento_save s key m))
    \<and> ((k, r) \<in> set (mementos s) \<and> holder r = holder m \<and> patient r = patient m \<longrightarrow>
          Memento_save s None m = (s, Inl IntegrityError))
    \<and> (has_pk (authors s) h \<and> has_pk (authors s) p \<longrightarrow>
          (\<exists>s1 k1 s2 k2. upsert_memento s h p x = (s1, Inr k1)
             \<and> upsert_memento s1 h p y = (s2, Inr k2)
             \<and> mementos_of s2 h p = [(k2, \<lparr>body = y, holder = h, patient = p\<rparr>)]))"
proof (intro conjI impI)
  show "memento_pairs_unique (fst (Memento_save s key m))"
    using Memento_save_inv[OF assms] by simp
next
  assume "(k, r) \<in> set (mementos s) \<and> holder r = holder m \<and> patient r = patient m"
  then have "\<not> unique_memento (mementos s) None m" by (auto simp: unique_memento_def)
  then show "Memento_save s None m = (s, Inl IntegrityError)" by (simp add: Memento_save_unfold)
next
  assume a: "has_pk (authors s) h \<and> has_pk (authors s) p"
  from upsert_memento_ok[OF assms, of h p x] a obtain s1 k1 where
    1: "upsert_memento s h p x = (s1, Inr k1)" "distinct (map fst (mementos s1))"
       "memento_pairs_unique s1" "authors s1 = authors s" by blast
  from upsert_memento_ok[OF 1(2,3), of h p y] a 1(4) obtain s2 k2 where
    2: "upsert_memento s1 h p y = (s2, Inr k2)"
       "mementos_of s2 h p = [(k2, \<lparr>body = y, holder = h, patient = p\<rparr>)]" by auto
  with 1(1) show "\<exists>s1 k1 s2 k2. upsert_memento s h p x = (s1, Inr k1)
             \<and> upsert_memento s1 h p y = (s2, Inr k2)
             \<and> mementos_of s2 h p = [(k2, \<lparr>body = y, holder = h, patient = p\<rparr>)]" by blast
qed

lemma db1_upsert_x: "upsert_memento db1 1 2 (Some (str_of ''x'')) = (db1x, Inr 1)"
  by (simp add: upsert_memento_def mementos_of_def Memento_save_unfold unique_memento_def
      save_table_def new_pk_def has_pk_def db1_def db1x_def empty_db_def memo_def)

lemma db1x_upsert_y: "upsert_memento db1x 1 2 (Some (str_of ''y'')) = (db1y, Inr 1)"
  by (simp add: upsert_memento_def mementos_of_def Memento_save_unfold unique_memento_def
      save_table_def table_update_def has_pk_def db1_def db1x_def db1y_def empty_db_def memo_def)

lemma db1x_inv: "distinct (map fst (mementos db1x))" "memento_pairs_unique db1x"
  "(1, memo ''x'' 1 2) \<in> set (mementos db1x)"
  by (simp_all add: db1x_def memento_pairs_unique_def)

lemma db1y_rows: "mementos_of db1y 1 2 = [(1, memo ''y'' 1 2)]"
  by (simp add: mementos_of_def db1y_def memo_def)

theorem memento_pair_unique_witness:
  "upsert_memento db1 1 2 (Some (str_of ''x'')) = (db1x, Inr 1)
   \<and> upsert_memento db1x 1 2 (Some (str_of ''y'')) = (db1y, Inr 1)
   \<and> mementos_of db1y 1 2 = [(1, memo ''y'' 1 2)]
   \<and> Memento_save db1x None (memo ''y'' 1 2) = (db1x, Inl IntegrityError)
   \<and> memento_pairs_unique (fst (Memento_save db1x None (memo ''y'' 1 2)))"
proof -
  have f: "holder (memo b h p) = h" "patient (memo b h p) = p" for b h p
    by (simp_all add: memo_def)
  have e: "distinct (map fst (mementos db1))" "memento_pairs_unique db1"
    by (simp_all add: db1_def empty_db_def memento_pairs_unique_def)
  show ?thesis
    using memento_pair_unique[OF db1x_inv(1,2), of None "memo ''y'' 1 2" 1 "memo ''x'' 1 2" 1 2]
      memento_pair_unique[OF e, of None "memo ''y'' 1 2" 1 "memo ''x'' 1 2" 1 2]
      db1x_inv(2,3) db1_upsert_x db1x_upsert_y db1y_rows
    by (simp add: f)
qed

end
